theory Spec2Isabelle
  imports Complex_Main "HOL-Library.AList" "HOL-Library.Monad_Syntax" "HOL-Library.Multiset"
begin

unbundle bit_operations_syntax

section \<open>Board (src/engine/types.ts, src/engine/Board.ts)\<close>

text \<open>
  The grid cell and the board of \<^verbatim>\<open>types.ts\<close>. Coordinates and sizes are natural numbers;
  \<^verbatim>\<open>adjacentMines\<close> is an integer because the calculator subtracts from it. The board's
  own fields \<^verbatim>\<open>mines\<close> and \<^verbatim>\<open>cells\<close> are called \<open>board_mines\<close> and \<open>board_cells\<close>, since a
  constraint of the calculator has fields of the same names.
\<close>

record Cell =
  row :: nat
  col :: nat
  isMine :: bool
  adjacentMines :: int
  isRevealed :: bool
  isFlagged :: bool

record Board =
  rows :: nat
  cols :: nat
  board_mines :: nat
  board_cells :: "Cell list list"
  minesGenerated :: bool

text \<open>
  \<^verbatim>\<open>initializeBoard\<close> fills the grid with \<open>rows\<close> rows of \<open>cols\<close> cells, each carrying its own
  coordinates; no method of the class changes the shape or the coordinates afterwards.
\<close>

definition wf_board :: "Board \<Rightarrow> bool" where
  "wf_board b \<longleftrightarrow>
     length (board_cells b) = rows b \<and>
     list_all (\<lambda>r. length (board_cells b ! r) = cols b \<and>
                 list_all (\<lambda>c. row (board_cells b ! r ! c) = r \<and> col (board_cells b ! r ! c) = c)
                   [0..<cols b])
       [0..<rows b]"

definition isValidCell :: "Board \<Rightarrow> int \<Rightarrow> int \<Rightarrow> bool" where
  "isValidCell b r c \<longleftrightarrow> r \<ge> 0 \<and> r < int (rows b) \<and> c \<ge> 0 \<and> c < int (cols b)"

definition getCell :: "Board \<Rightarrow> int \<Rightarrow> int \<Rightarrow> Cell option" where
  "getCell b r c = (if \<not> isValidCell b r c then None else Some (board_cells b ! nat r ! nat c))"

definition directions :: "(int \<times> int) list" where
  "directions = [(-1, -1), (-1, 0), (-1, 1), (0, -1), (0, 1), (1, -1), (1, 0), (1, 1)]"

definition getNeighbors :: "Board \<Rightarrow> int \<Rightarrow> int \<Rightarrow> Cell list" where
  "getNeighbors b r c =
     map (\<lambda>(dr, dc). board_cells b ! nat (r + dr) ! nat (c + dc))
       (filter (\<lambda>(dr, dc). isValidCell b (r + dr) (c + dc)) directions)"

subsection \<open>Cell keys\<close>

text \<open>
  \<^verbatim>\<open>cellKey\<close> is the template string \<^verbatim>\<open>`${row},${col}`\<close>: the decimal numerals of the two
  coordinates joined by a comma (a natural number below \<open>10^21\<close> prints as its decimal digits).
\<close>

definition digit_char :: "nat \<Rightarrow> char" where
  "digit_char d = char_of (48 + d)"

fun string_of_nat :: "nat \<Rightarrow> string" where
  "string_of_nat n =
     (if n < 10 then [digit_char n] else string_of_nat (n div 10) @ [digit_char (n mod 10)])"

declare string_of_nat.simps [simp del]

definition cellKey :: "nat \<Rightarrow> nat \<Rightarrow> string" where
  "cellKey r c = string_of_nat r @ '','' @ string_of_nat c"

text \<open>
  \<^verbatim>\<open>key.split(',')\<close> and \<^verbatim>\<open>Number\<close>, as \<^verbatim>\<open>getDefinitiveCells\<close> uses them. \<open>Number_str\<close> covers the
  strings of decimal digits (the empty string converts to 0, as in JavaScript); on every other
  string it is \<open>None\<close>, which stands for a value that is not a natural number written in
  digits (\<^verbatim>\<open>NaN\<close> for most such strings).
\<close>

fun split_comma :: "string \<Rightarrow> string list" where
  "split_comma [] = [[]]"
| "split_comma (c # cs) =
     (if c = CHR '','' then [] # split_comma cs
      else (case split_comma cs of [] \<Rightarrow> [[c]] | p # ps \<Rightarrow> (c # p) # ps))"

definition digit_val :: "char \<Rightarrow> nat option" where
  "digit_val c =
     (let code = (of_char c :: nat) in if 48 \<le> code \<and> code \<le> 57 then Some (code - 48) else None)"

fun Number_acc :: "nat \<Rightarrow> string \<Rightarrow> nat option" where
  "Number_acc acc [] = Some acc"
| "Number_acc acc (c # cs) =
     (case digit_val c of None \<Rightarrow> None | Some d \<Rightarrow> Number_acc (acc * 10 + d) cs)"

definition Number_str :: "string \<Rightarrow> nat option" where
  "Number_str s = Number_acc 0 s"

text \<open>
  The destructuring \<^verbatim>\<open>const [row, col] = key.split(',').map(Number)\<close>: the first two parts,
  each \<open>None\<close> when the part is missing or is not a numeral.
\<close>

definition parseKey :: "string \<Rightarrow> nat option \<times> nat option" where
  "parseKey key =
     (case map Number_str (split_comma key) of
        [] \<Rightarrow> (None, None)
      | [r] \<Rightarrow> (r, None)
      | r # c # _ \<Rightarrow> (r, c))"

section \<open>The probability calculator (ProbabilityCalculator.calculateProbabilities)\<close>

text \<open>
  A JavaScript \<^verbatim>\<open>Set<string>\<close> iterates in insertion order: it is a list without
  repetitions, \<^verbatim>\<open>add\<close> appending a key that is not yet a member.
\<close>

definition set_add :: "string \<Rightarrow> string list \<Rightarrow> string list" where
  "set_add k s = (if k \<in> set s then s else s @ [k])"

record Constraint =
  cells :: "string list"
  mines :: int

text \<open>
  A \<^verbatim>\<open>ProbabilityMap\<close> is an object with string keys, none of them an array index: its
  entries keep the order of first assignment. It is an association list, assignment being
  \<^const>\<open>AList.update\<close> and a read \<^const>\<open>map_of\<close>. Probabilities are JavaScript numbers, modelled
  as rationals.
\<close>

type_synonym ProbabilityMap = "(string \<times> rat) list"

subsection \<open>Building the constraints (lines 26-55)\<close>

definition scanCell ::
  "Board \<Rightarrow> nat \<Rightarrow> nat \<Rightarrow> string list \<times> Constraint list \<Rightarrow> string list \<times> Constraint list" where
  "scanCell b r c st =
     (case getCell b (int r) (int c) of
        None \<Rightarrow> st
      | Some cell \<Rightarrow>
          (let unrevealedCells =
                 (if \<not> isRevealed cell \<and> \<not> isFlagged cell
                  then set_add (cellKey r c) (fst st) else fst st);
               constraints =
                 (if isRevealed cell \<and> adjacentMines cell > 0
                  then (let neighbors = getNeighbors b (int r) (int c);
                            unknown = filter (\<lambda>n. \<not> isRevealed n \<and> \<not> isFlagged n) neighbors;
                            flagged = filter isFlagged neighbors;
                            remainingMines = adjacentMines cell - int (length flagged)
                        in if length unknown > 0 \<and> remainingMines \<ge> 0
                           then snd st @ [\<lparr>cells = map (\<lambda>n. cellKey (row n) (col n)) unknown,
                                           mines = remainingMines\<rparr>]
                           else snd st)
                  else snd st)
           in (unrevealedCells, constraints)))"

definition buildConstraints :: "Board \<Rightarrow> string list \<times> Constraint list" where
  "buildConstraints b =
     fold (\<lambda>r st. fold (\<lambda>c st'. scanCell b r c st') [0..<cols b] st) [0..<rows b] ([], [])"

subsection \<open>Propagation (lines 57-174)\<close>

text \<open>The known-safe set, the known-mine set and the \<^verbatim>\<open>changed\<close> flag.\<close>

record Known =
  knownSafe :: "string list"
  knownMines :: "string list"
  changed :: bool

text \<open>The inner loop of lines 71-80 over \<^verbatim>\<open>constraint.cells\<close>.\<close>

fun narrowCells :: "Known \<Rightarrow> string list \<Rightarrow> int \<times> string list \<Rightarrow> int \<times> string list" where
  "narrowCells k [] acc = acc"
| "narrowCells k (key # rest) (minesLeft, remainingCells) =
     (if key \<in> set (knownSafe k) then narrowCells k rest (minesLeft, remainingCells)
      else if key \<in> set (knownMines k) then narrowCells k rest (minesLeft - 1, remainingCells)
      else narrowCells k rest (minesLeft, remainingCells @ [key]))"

text \<open>Lines 92-97 and 99-104: the two loops of the basic deductions.\<close>

fun markSafe :: "string list \<Rightarrow> Known \<Rightarrow> Known" where
  "markSafe [] k = k"
| "markSafe (key # rest) k =
     (if key \<notin> set (knownSafe k)
      then markSafe rest (k\<lparr>knownSafe := set_add key (knownSafe k), changed := True\<rparr>)
      else markSafe rest k)"

fun markMines :: "string list \<Rightarrow> Known \<Rightarrow> Known" where
  "markMines [] k = k"
| "markMines (key # rest) k =
     (if key \<notin> set (knownMines k)
      then markMines rest (k\<lparr>knownMines := set_add key (knownMines k), changed := True\<rparr>)
      else markMines rest k)"

text \<open>One turn of the loop of lines 67-106: the constraint is narrowed in place.\<close>

definition updateConstraint :: "Constraint \<Rightarrow> Known \<Rightarrow> Constraint \<times> Known" where
  "updateConstraint constraint k =
     (let (minesLeft0, remainingCells) = narrowCells k (cells constraint) (mines constraint, []);
          minesLeft = max 0 minesLeft0;
          constraint' = constraint\<lparr>cells := remainingCells, mines := minesLeft\<rparr>
      in if length remainingCells = 0 then (constraint', k)
         else if minesLeft = 0 then (constraint', markSafe remainingCells k)
         else if minesLeft = int (length remainingCells) then (constraint', markMines remainingCells k)
         else (constraint', k))"

fun updateConstraints :: "Constraint list \<Rightarrow> Known \<Rightarrow> Constraint list \<times> Known" where
  "updateConstraints [] k = ([], k)"
| "updateConstraints (constraint # rest) k =
     (let (constraint', k') = updateConstraint constraint k;
          (rest', k'') = updateConstraints rest k'
      in (constraint' # rest', k''))"

text \<open>Lines 137-142 and 145-150: the immediate deductions of the subset analysis.\<close>

fun deduceSafe :: "string list \<Rightarrow> Known \<Rightarrow> Known" where
  "deduceSafe [] k = k"
| "deduceSafe (key # rest) k =
     (if key \<notin> set (knownSafe k) \<and> key \<notin> set (knownMines k)
      then deduceSafe rest (k\<lparr>knownSafe := set_add key (knownSafe k), changed := True\<rparr>)
      else deduceSafe rest k)"

fun deduceMines :: "string list \<Rightarrow> Known \<Rightarrow> Known" where
  "deduceMines [] k = k"
| "deduceMines (key # rest) k =
     (if key \<notin> set (knownMines k) \<and> key \<notin> set (knownSafe k)
      then deduceMines rest (k\<lparr>knownMines := set_add key (knownMines k), changed := True\<rparr>)
      else deduceMines rest k)"

text \<open>Lines 153-158: is there a derived constraint like this one already?\<close>

definition derivedExists :: "Constraint list \<Rightarrow> string list \<Rightarrow> int \<Rightarrow> bool" where
  "derivedExists derivedConstraints difference diffMines =
     list_ex (\<lambda>dc. if length (cells dc) \<noteq> length difference \<or> mines dc \<noteq> diffMines then False
                   else list_all (\<lambda>c. c \<in> set difference) (cells dc))
       derivedConstraints"

text \<open>
  The body of the inner loop (lines 119-165) for the pair of indices \<open>(i, j)\<close>; the state is
  the known sets and the list of the constraints derived in this pass.
\<close>

definition comparePair ::
  "Constraint list \<Rightarrow> nat \<Rightarrow> nat \<Rightarrow> Known \<times> Constraint list \<Rightarrow> Known \<times> Constraint list" where
  "comparePair constraints i j st =
     (if i = j then st
      else let c1 = constraints ! i; c2 = constraints ! j
      in if length (cells c2) = 0 then st
         else let c1IsSubsetOfC2 = list_all (\<lambda>cell. cell \<in> set (cells c2)) (cells c1)
         in if c1IsSubsetOfC2 \<and> length (cells c1) < length (cells c2)
            then (let difference = filter (\<lambda>cell. cell \<notin> set (cells c1)) (cells c2);
                      diffMines = mines c2 - mines c1
                  in if length difference > 0 \<and> diffMines \<ge> 0
                     then (if diffMines = 0 then (deduceSafe difference (fst st), snd st)
                           else if diffMines = int (length difference)
                           then (deduceMines difference (fst st), snd st)
                           else if \<not> derivedExists (snd st) difference diffMines
                           then (fst st, snd st @ [\<lparr>cells = difference, mines = diffMines\<rparr>])
                           else st)
                     else st)
            else st)"

definition maxConstraintsToCompare :: "Constraint list \<Rightarrow> nat" where
  "maxConstraintsToCompare constraints = min (length constraints) 50"

definition subsetAnalysis :: "Constraint list \<Rightarrow> Known \<Rightarrow> Known \<times> Constraint list" where
  "subsetAnalysis constraints k =
     fold (\<lambda>i st. if length (cells (constraints ! i)) = 0 then st
                  else fold (\<lambda>j st'. comparePair constraints i j st') [0..<length constraints] st)
       [0..<maxConstraintsToCompare constraints] (k, [])"

text \<open>One pass of the \<^verbatim>\<open>while\<close> loop, after \<^verbatim>\<open>changed = false; iterations++\<close>.\<close>

definition propagationPass :: "Constraint list \<times> Known \<Rightarrow> Constraint list \<times> Known" where
  "propagationPass st =
     (let (constraints, k) = updateConstraints (fst st) (snd st);
          (k', derivedConstraints) = subsetAnalysis constraints k
      in if length derivedConstraints > 0
         then (constraints @ derivedConstraints, k'\<lparr>changed := True\<rparr>)
         else (constraints, k'))"

definition maxIterations :: nat where
  "maxIterations = 100"

function propagate :: "nat \<Rightarrow> Constraint list \<times> Known \<Rightarrow> Constraint list \<times> Known" where
  "propagate iterations st =
     (if changed (snd st) \<and> iterations < maxIterations
      then propagate (iterations + 1) (propagationPass (fst st, (snd st)\<lparr>changed := False\<rparr>))
      else st)"
  by pat_completeness auto
termination
  by (relation "measure (\<lambda>(iterations, st). maxIterations - iterations)") auto

declare propagate.simps [simp del]

definition initialKnown :: Known where
  "initialKnown = \<lparr>knownSafe = [], knownMines = [], changed = True\<rparr>"

text \<open>
  The test of lines 154-157, between a constraint \<open>dc\<close> derived earlier and a new one: the
  same number of cells, the same mine count, and every cell of \<open>dc\<close> among the new cells.
\<close>

definition sameDerived :: "Constraint \<Rightarrow> Constraint \<Rightarrow> bool" where
  "sameDerived dc d \<longleftrightarrow>
     length (cells dc) = length (cells d) \<and> mines dc = mines d \<and> set (cells dc) \<subseteq> set (cells d)"

definition pairwiseDerived :: "Constraint list \<Rightarrow> bool" where
  "pairwiseDerived ds \<longleftrightarrow> (\<forall>j < length ds. \<forall>i < j. \<not> sameDerived (ds ! i) (ds ! j))"

definition disjointKnown :: "Known \<Rightarrow> bool" where
  "disjointKnown k \<longleftrightarrow> set (knownSafe k) \<inter> set (knownMines k) = {}"

text \<open>
  The state after \<open>n\<close> turns of the loop body, whether or not the loop runs that long; the
  loop itself stops at one of these states.
\<close>

definition loopBody :: "Constraint list \<times> Known \<Rightarrow> Constraint list \<times> Known" where
  "loopBody st = propagationPass (fst st, (snd st)\<lparr>changed := False\<rparr>)"

definition passes :: "nat \<Rightarrow> Board \<Rightarrow> Constraint list \<times> Known" where
  "passes n b = (loopBody ^^ n) (snd (buildConstraints b), initialKnown)"

subsection \<open>Partitioning the constraints (partitionConstraints, lines 299-351)\<close>

text \<open>
  \<^verbatim>\<open>cellToConstraints\<close> is a \<^verbatim>\<open>Map\<close> from a cell key to the indices of the constraints that
  mention it, in insertion order.
\<close>

definition addCellIndex :: "nat \<Rightarrow> string \<Rightarrow> (string \<times> nat list) list \<Rightarrow> (string \<times> nat list) list" where
  "addCellIndex idx cell m =
     (let m' = (if map_of m cell = None then AList.update cell [] m else m)
      in AList.map_entry cell (\<lambda>l. l @ [idx]) m')"

definition buildCellMap :: "Constraint list \<Rightarrow> (string \<times> nat list) list" where
  "buildCellMap constraints =
     fold (\<lambda>(idx, constraint) m. fold (addCellIndex idx) (cells constraint) m)
       (enumerate 0 constraints) []"

text \<open>
  \<^verbatim>\<open>find\<close> (here \<open>uf_find\<close>) and \<^verbatim>\<open>union\<close> (here \<open>uf_union\<close>), with the path compression; the \<^verbatim>\<open>parent\<close> array is passed in and returned. The
  recursion follows parent links, so it is a partial function: \<open>None\<close> is a call that does
  not return. An index outside the array (which no caller passes) is \<open>None\<close> as well.
\<close>

partial_function (option) uf_find :: "nat list \<Rightarrow> nat \<Rightarrow> (nat list \<times> nat) option" where
  "uf_find parent x =
     (if x \<ge> length parent then None
      else if parent ! x \<noteq> x
      then Option.bind (uf_find parent (parent ! x)) (\<lambda>pr. Some ((fst pr)[x := snd pr], snd pr))
      else Some (parent, parent ! x))"

declare uf_find.simps [code]

definition uf_union :: "nat list \<Rightarrow> nat \<Rightarrow> nat \<Rightarrow> nat list option" where
  "uf_union parent x y =
     Option.bind (uf_find parent x) (\<lambda>(parent1, px).
     Option.bind (uf_find parent1 y) (\<lambda>(parent2, py).
       Some (if px \<noteq> py then parent2[px := py] else parent2)))"

text \<open>Lines 335-337: the indices of one cell, all united with the first.\<close>

fun unionIndices :: "nat \<Rightarrow> nat list \<Rightarrow> nat list \<Rightarrow> nat list option" where
  "unionIndices first [] parent = Some parent"
| "unionIndices first (idx # rest) parent =
     Option.bind (uf_union parent first idx) (unionIndices first rest)"

fun unionAll :: "nat list list \<Rightarrow> nat list \<Rightarrow> nat list option" where
  "unionAll [] parent = Some parent"
| "unionAll (constraintIndices # rest) parent =
     (case constraintIndices of
        [] \<Rightarrow> unionAll rest parent
      | first # others \<Rightarrow> Option.bind (unionIndices first others parent) (unionAll rest))"

text \<open>Lines 341-348: the constraints grouped by the root of their index.\<close>

definition pushGroup :: "nat \<Rightarrow> 'a \<Rightarrow> (nat \<times> 'a list) list \<Rightarrow> (nat \<times> 'a list) list" where
  "pushGroup r x groups =
     (let groups' = (if map_of groups r = None then AList.update r [] groups else groups)
      in AList.map_entry r (\<lambda>g. g @ [x]) groups')"

fun groupByRoot ::
  "(nat \<times> Constraint) list \<Rightarrow> nat list \<Rightarrow> (nat \<times> Constraint list) list \<Rightarrow>
   (nat \<times> Constraint list) list option" where
  "groupByRoot [] parent groups = Some groups"
| "groupByRoot ((idx, constraint) # rest) parent groups =
     Option.bind (uf_find parent idx) (\<lambda>(parent', r).
       groupByRoot rest parent' (pushGroup r constraint groups))"

definition partitionConstraints :: "Constraint list \<Rightarrow> Constraint list list option" where
  "partitionConstraints constraints =
     (if length constraints = 0 then Some []
      else Option.bind (unionAll (map snd (buildCellMap constraints)) [0..<length constraints])
             (\<lambda>parent. map_option (map snd) (groupByRoot (enumerate 0 constraints) parent [])))"

subsection \<open>Enumerating the assignments (solveConstraints, lines 357-407)\<close>

text \<open>
  The loop counter, the number of combinations and the cap on the solutions are JavaScript
  numbers with integer values; they are integers here.
\<close>

definition maxSolutions :: int where
  "maxSolutions = 10000"

text \<open>Lines 383-387: the cells whose bit is set in \<^verbatim>\<open>mask\<close> (here \<open>msk\<close>).\<close>

definition maskMines :: "string list \<Rightarrow> int \<Rightarrow> string list" where
  "maskMines cs msk =
     map (\<lambda>i. cs ! i) (filter (\<lambda>i. msk AND push_bit i 1 \<noteq> 0) [0..<length cs])"

text \<open>Lines 390-399: does the assignment satisfy every constraint?\<close>

definition validAssignment :: "Constraint list \<Rightarrow> string list \<Rightarrow> bool" where
  "validAssignment constraints mineSet =
     list_all (\<lambda>constraint.
        int (length (filter (\<lambda>c. c \<in> set mineSet) (cells constraint))) = mines constraint)
       constraints"

function solveLoop ::
  "string list \<Rightarrow> Constraint list \<Rightarrow> int \<Rightarrow> int \<Rightarrow> string list list \<Rightarrow> string list list" where
  "solveLoop cs constraints maxCombinations msk solutions =
     (if msk < maxCombinations
      then (if int (length solutions) \<ge> maxSolutions then solutions
            else solveLoop cs constraints maxCombinations (msk + 1)
                   (if validAssignment constraints (maskMines cs msk)
                    then solutions @ [maskMines cs msk] else solutions))
      else solutions)"
  by pat_completeness auto
termination
  by (relation "measure (\<lambda>(cs, constraints, maxCombinations, msk, solutions).
        nat (maxCombinations - msk))")
    auto

declare solveLoop.simps [simp del]

definition solveConstraints :: "string list \<Rightarrow> Constraint list \<Rightarrow> string list list" where
  "solveConstraints cs constraints =
     (let n = length cs; maxCombinations = (2::int) ^ n
      in if maxCombinations > 1048576 then []
         else solveLoop cs constraints maxCombinations 0 [])"

subsection \<open>Solving the groups (lines 176-258)\<close>

text \<open>Lines 177-182: the definitive results.\<close>

definition recordDefinitive :: "Known \<Rightarrow> ProbabilityMap" where
  "recordDefinitive k =
     fold (\<lambda>key result. AList.update key 1 result) (knownMines k)
       (fold (\<lambda>key result. AList.update key 0 result) (knownSafe k) [])"

text \<open>Lines 188-195: the frontier cells.\<close>

definition collectFrontier :: "Known \<Rightarrow> Constraint list \<Rightarrow> string list" where
  "collectFrontier k activeConstraints =
     fold (\<lambda>constraint frontierCells.
             fold (\<lambda>key fc. if key \<notin> set (knownSafe k) \<and> key \<notin> set (knownMines k)
                             then set_add key fc else fc)
               (cells constraint) frontierCells)
       activeConstraints []"

text \<open>Lines 202-209: the cells of a group, as \<^verbatim>\<open>Array.from(groupCells)\<close>.\<close>

definition groupCellArray :: "Constraint list \<Rightarrow> string list" where
  "groupCellArray grp =
     fold (\<lambda>constraint groupCells. fold set_add (cells constraint) groupCells) grp []"

text \<open>
  Lines 217-226: \<^verbatim>\<open>mineCounts\<close>, a record from key to count. Every key of a solution is a
  key of \<open>cellArray\<close>, which line 219 has set to 0.
\<close>

definition countMines :: "string list \<Rightarrow> string list list \<Rightarrow> (string \<times> nat) list" where
  "countMines cellArray solutions =
     fold (\<lambda>solution mineCounts. fold (\<lambda>key mc. AList.map_entry key Suc mc) solution mineCounts)
       solutions
       (fold (\<lambda>key mc. AList.update key 0 mc) cellArray [])"

definition lookupCount :: "(string \<times> nat) list \<Rightarrow> string \<Rightarrow> nat" where
  "lookupCount mc key = (case map_of mc key of None \<Rightarrow> 0 | Some n \<Rightarrow> n)"

definition exactProbabilities ::
  "string list \<Rightarrow> string list list \<Rightarrow> ProbabilityMap \<Rightarrow> ProbabilityMap" where
  "exactProbabilities cellArray solutions result =
     (let mineCounts = countMines cellArray solutions
      in fold (\<lambda>key res. AList.update key
                 (rat_of_nat (lookupCount mineCounts key) / rat_of_nat (length solutions)) res)
           cellArray result)"

text \<open>
  Lines 240-256: the averaging fallback. \<^verbatim>\<open>probSum[key] || 0\<close> reads a missing entry as 0.
\<close>

definition addLocal ::
  "rat \<Rightarrow> string \<Rightarrow> (string \<times> rat) list \<times> (string \<times> nat) list \<Rightarrow>
   (string \<times> rat) list \<times> (string \<times> nat) list" where
  "addLocal localProb key pp =
     (AList.update key ((case map_of (fst pp) key of None \<Rightarrow> 0 | Some v \<Rightarrow> v) + localProb) (fst pp),
      AList.update key ((case map_of (snd pp) key of None \<Rightarrow> 0 | Some n \<Rightarrow> n) + 1) (snd pp))"

definition localSums ::
  "Constraint list \<Rightarrow> (string \<times> rat) list \<times> (string \<times> nat) list" where
  "localSums grp =
     fold (\<lambda>constraint pp.
             fold (addLocal (of_int (mines constraint) / rat_of_nat (length (cells constraint))))
               (cells constraint) pp)
       grp ([], [])"

definition clamp01 :: "rat \<Rightarrow> rat" where
  "clamp01 x = max 0 (min 1 x)"

definition averageProbabilities ::
  "Constraint list \<Rightarrow> string list \<Rightarrow> ProbabilityMap \<Rightarrow> ProbabilityMap" where
  "averageProbabilities grp cellArray result =
     (let (probSum, probCount) = localSums grp
      in fold (\<lambda>key res.
                 if map_of res key = None
                 then (let average =
                             (case map_of probCount key of
                                None \<Rightarrow> 1 / 2
                              | Some n \<Rightarrow>
                                  if n > 0
                                  then (case map_of probSum key of None \<Rightarrow> 0 | Some v \<Rightarrow> v) / rat_of_nat n
                                  else 1 / 2)
                       in AList.update key (clamp01 average) res)
                 else res)
           cellArray result)"

text \<open>The body of the loop over the groups (lines 201-258).\<close>

definition solveGroup :: "Constraint list \<Rightarrow> ProbabilityMap \<Rightarrow> ProbabilityMap" where
  "solveGroup grp result =
     (let cellArray = groupCellArray grp
      in if length cellArray > 0 \<and> length cellArray \<le> 20
         then (let solutions = solveConstraints cellArray grp
               in if length solutions > 0
                  then exactProbabilities cellArray solutions result
                  else fold (\<lambda>key res. AList.update key (1 / 2) res) cellArray result)
         else if length cellArray > 20
         then averageProbabilities grp cellArray result
         else result)"

subsection \<open>The cells outside the frontier and the result (lines 260-292)\<close>

definition resultOr0 :: "ProbabilityMap \<Rightarrow> string \<Rightarrow> rat" where
  "resultOr0 result key = (case map_of result key of None \<Rightarrow> 0 | Some p \<Rightarrow> p)"

definition fillRemaining ::
  "string list \<Rightarrow> string list \<Rightarrow> Known \<Rightarrow> int \<Rightarrow> ProbabilityMap \<Rightarrow> ProbabilityMap" where
  "fillRemaining unrevealedCells frontierCells k minesRemaining result =
     (let minesLeftTotal = max 0 (minesRemaining - int (length (knownMines k)));
          expectedFrontierMines = fold (\<lambda>key acc. acc + resultOr0 result key) frontierCells 0;
          nonFrontierCells =
            filter (\<lambda>key. key \<notin> set frontierCells \<and> map_of result key = None) unrevealedCells;
          result1 =
            (if length nonFrontierCells > 0
             then (let nonFrontierMines = max 0 (of_int minesLeftTotal - expectedFrontierMines);
                       nonFrontierProb = nonFrontierMines / rat_of_nat (length nonFrontierCells)
                   in fold (\<lambda>key res. AList.update key (clamp01 nonFrontierProb) res)
                        nonFrontierCells result)
             else result);
          baseProbability =
            (if length unrevealedCells > 0
             then of_int minesLeftTotal / rat_of_nat (length unrevealedCells) else 0)
      in fold (\<lambda>key res. if map_of res key = None
                           then AList.update key (clamp01 baseProbability) res else res)
           unrevealedCells result1)"

text \<open>
  The state after the propagation loop, and the groups the solver works on; both are parts
  of \<open>calculateProbabilities\<close>, named so that statements can refer to them.
\<close>

definition propagated :: "Board \<Rightarrow> Constraint list \<times> Known" where
  "propagated b = propagate 0 (snd (buildConstraints b), initialKnown)"

definition activeConstraints :: "Board \<Rightarrow> Constraint list" where
  "activeConstraints b = filter (\<lambda>c. length (cells c) > 0) (fst (propagated b))"

definition calculateProbabilities :: "Board \<Rightarrow> int \<Rightarrow> ProbabilityMap option" where
  "calculateProbabilities b minesRemaining =
     (let unrevealedCells = fst (buildConstraints b);
          k = snd (propagated b);
          result = recordDefinitive k;
          frontierCells = collectFrontier k (activeConstraints b)
      in map_option
           (\<lambda>constraintGroups.
              fillRemaining unrevealedCells frontierCells k minesRemaining
                (fold solveGroup constraintGroups result))
           (partitionConstraints (activeConstraints b)))"

subsection \<open>getDefinitiveCells (lines 412-433)\<close>

text \<open>The two arrays \<^verbatim>\<open>safe\<close> and \<^verbatim>\<open>mines\<close> of the returned object, as a pair.\<close>

definition definitiveStep ::
  "string \<times> rat \<Rightarrow> (nat option \<times> nat option) list \<times> (nat option \<times> nat option) list \<Rightarrow>
   (nat option \<times> nat option) list \<times> (nat option \<times> nat option) list" where
  "definitiveStep entry sm =
     (if snd entry = 0 then (fst sm @ [parseKey (fst entry)], snd sm)
      else if snd entry = 1 then (fst sm, snd sm @ [parseKey (fst entry)])
      else sm)"

definition getDefinitiveCells ::
  "Board \<Rightarrow> int \<Rightarrow> ((nat option \<times> nat option) list \<times> (nat option \<times> nat option) list) option" where
  "getDefinitiveCells b minesRemaining =
     map_option (\<lambda>probabilities. fold definitiveStep probabilities ([], []))
       (calculateProbabilities b minesRemaining)"

section \<open>Predicates of the statements\<close>

text \<open>The known sets and the derived list only grow while pairs are compared.\<close>

definition grows :: "Known \<times> Constraint list \<Rightarrow> Known \<times> Constraint list \<Rightarrow> bool" where
  "grows st st' \<longleftrightarrow>
     set (knownSafe (fst st)) \<subseteq> set (knownSafe (fst st')) \<and>
     set (knownMines (fst st)) \<subseteq> set (knownMines (fst st')) \<and>
     set (snd st) \<subseteq> set (snd st')"

text \<open>
  \<open>rootOf parent x r\<close>: following the parent links from \<open>x\<close> ends at the root \<open>r\<close>.
\<close>

inductive rootOf :: "nat list \<Rightarrow> nat \<Rightarrow> nat \<Rightarrow> bool" where
  atRoot: "x < length parent \<Longrightarrow> parent ! x = x \<Longrightarrow> rootOf parent x x"
| viaParent: "x < length parent \<Longrightarrow> parent ! x \<noteq> x \<Longrightarrow> rootOf parent (parent ! x) r \<Longrightarrow>
    rootOf parent x r"

definition uf_inv :: "nat list \<Rightarrow> bool" where
  "uf_inv parent \<longleftrightarrow> (\<forall>x < length parent. \<exists>r. rootOf parent x r)"

definition sameRoot :: "nat list \<Rightarrow> nat \<Rightarrow> nat \<Rightarrow> bool" where
  "sameRoot parent a b \<longleftrightarrow> (\<exists>r. rootOf parent a r \<and> rootOf parent b r)"

definition uf_rel :: "nat list \<Rightarrow> (nat \<times> nat) set" where
  "uf_rel parent = {(a, b). sameRoot parent a b}"

text \<open>
  \<open>ufStep E parent parent'\<close>: the array \<open>parent'\<close> comes from \<open>parent\<close> by uniting the pairs
  of \<open>E\<close> and nothing else: classes only merge, the pairs of \<open>E\<close> are united, and the new
  classes lie within every symmetric and transitive relation that holds the old classes
  and \<open>E\<close>.
\<close>

definition ufStep :: "(nat \<times> nat) set \<Rightarrow> nat list \<Rightarrow> nat list \<Rightarrow> bool" where
  "ufStep E parent parent' \<longleftrightarrow>
     length parent' = length parent \<and> uf_inv parent' \<and>
     (\<forall>a b. sameRoot parent a b \<longrightarrow> sameRoot parent' a b) \<and>
     (\<forall>(x, y) \<in> E. sameRoot parent' x y) \<and>
     (\<forall>C. sym C \<and> trans C \<and> E \<subseteq> C \<and> uf_rel parent \<subseteq> C \<longrightarrow> uf_rel parent' \<subseteq> C)"

text \<open>The pairs that lines 335-337 unite for one list of indices: the first with each other.\<close>

definition starEdges :: "nat list \<Rightarrow> (nat \<times> nat) set" where
  "starEdges l = (case l of [] \<Rightarrow> {} | first # others \<Rightarrow> {first} \<times> set others)"

definition cellIdxs :: "(string \<times> nat list) list \<Rightarrow> string \<Rightarrow> nat list" where
  "cellIdxs m cell = (case map_of m cell of None \<Rightarrow> [] | Some l \<Rightarrow> l)"

text \<open>
  Grouping by a root function that is known beforehand: what lines 341-348 compute once
  the roots are fixed.
\<close>

definition groupPure :: "(nat \<Rightarrow> nat) \<Rightarrow> (nat \<times> 'a) list \<Rightarrow> (nat \<times> 'a list) list \<Rightarrow> (nat \<times> 'a list) list" where
  "groupPure rt xs gs = fold (\<lambda>(idx, x) g. pushGroup (rt idx) x g) xs gs"

definition grpOf :: "(nat \<times> 'a list) list \<Rightarrow> nat \<Rightarrow> 'a list" where
  "grpOf gs key = (case map_of gs key of None \<Rightarrow> [] | Some l \<Rightarrow> l)"

text \<open>Grouping commutes with a map over the grouped elements.\<close>

definition mapGroups :: "('a \<Rightarrow> 'b) \<Rightarrow> (nat \<times> 'a list) list \<Rightarrow> (nat \<times> 'b list) list" where
  "mapGroups f gs = map (\<lambda>kl. (fst kl, map f (snd kl))) gs"

text \<open>The index groups: the indices \<open>0..<n\<close> grouped by their roots.\<close>

definition indexGroups :: "(nat \<Rightarrow> nat) \<Rightarrow> nat \<Rightarrow> nat list list" where
  "indexGroups rt n = map snd (groupPure rt (map (\<lambda>i. (i, i)) [0..<n]) [])"

text \<open>Two constraints, given by their indices, share a cell.\<close>

definition shareRel :: "Constraint list \<Rightarrow> (nat \<times> nat) set" where
  "shareRel cs =
     {(i, j). i < length cs \<and> j < length cs \<and> set (cells (cs ! i)) \<inter> set (cells (cs ! j)) \<noteq> {}}"

definition probsInRange :: "ProbabilityMap \<Rightarrow> bool" where
  "probsInRange result \<longleftrightarrow> (\<forall>entry \<in> set result. 0 \<le> snd entry \<and> snd entry \<le> 1)"

text \<open>The result has at most one entry for a key, whatever is assigned to it.\<close>

definition keysOf :: "ProbabilityMap \<Rightarrow> string set" where
  "keysOf result = fst ` set result"

text \<open>
  Propagation introduces no cell: the cells of the constraints and the known sets stay
  within any set \<open>U\<close> that holds the cells of the constraints it starts from.
\<close>

definition withinCells :: "string set \<Rightarrow> Constraint list \<times> Known \<Rightarrow> bool" where
  "withinCells U st \<longleftrightarrow>
     (\<forall>c \<in> set (fst st). set (cells c) \<subseteq> U) \<and>
     set (knownSafe (snd st)) \<subseteq> U \<and> set (knownMines (snd st)) \<subseteq> U"

text \<open>The cell at \<open>(r, c)\<close> is on the board, unrevealed and unflagged.\<close>

definition unknownAt :: "Board \<Rightarrow> nat \<Rightarrow> nat \<Rightarrow> bool" where
  "unknownAt b r c \<longleftrightarrow>
     r < rows b \<and> c < cols b \<and>
     \<not> isRevealed (board_cells b ! r ! c) \<and> \<not> isFlagged (board_cells b ! r ! c)"

text \<open>
  The assignments of a component, in the words of the specification: an assignment is a
  set of cells of the component (the cells that are mines); it satisfies the component
  when, for every constraint of the component, the number of its cells that are in the
  set equals its mine count.
\<close>

definition componentCells :: "Constraint list \<Rightarrow> string set" where
  "componentCells grp = (\<Union>c \<in> set grp. set (cells c))"

definition satisfies :: "Constraint list \<Rightarrow> string set \<Rightarrow> bool" where
  "satisfies grp S \<longleftrightarrow> (\<forall>c \<in> set grp. int (card (set (cells c) \<inter> S)) = mines c)"

definition satisfying :: "Constraint list \<Rightarrow> string set set" where
  "satisfying grp = {S. S \<subseteq> componentCells grp \<and> satisfies grp S}"


text \<open>
  The state of the subset analysis (the known sets and the constraints derived so far in
  this pass) when the loops of lines 116 and 120 reach the pair of indices \<open>(i, j)\<close>.
\<close>

definition analysisBefore ::
  "Constraint list \<Rightarrow> Known \<Rightarrow> nat \<Rightarrow> nat \<Rightarrow> Known \<times> Constraint list" where
  "analysisBefore constraints k i j =
     fold (\<lambda>j' st'. comparePair constraints i j' st') [0..<j]
       (fold (\<lambda>i' st. if length (cells (constraints ! i')) = 0 then st
                  else fold (\<lambda>j' st'. comparePair constraints i' j' st') [0..<length constraints] st)
          [0..<i] (k, []))"

section \<open>Boards of the test suite (ProbabilityCalculator.test.ts)\<close>

text \<open>
  A cell as \<^verbatim>\<open>initializeBoard\<close> creates it, and as the tests' \<^verbatim>\<open>setRevealed\<close> leaves it.
\<close>

definition hiddenCell :: "nat \<Rightarrow> nat \<Rightarrow> Cell" where
  "hiddenCell r c =
     \<lparr>row = r, col = c, isMine = False, adjacentMines = 0, isRevealed = False, isFlagged = False\<rparr>"

definition revealedCell :: "nat \<Rightarrow> nat \<Rightarrow> int \<Rightarrow> Cell" where
  "revealedCell r c n = (hiddenCell r c)\<lparr>isRevealed := True, adjacentMines := n\<rparr>"

text \<open>The board of the second test: three rows, two columns, clues at (0,0) and (2,0).\<close>

definition board3x2 :: Board where
  "board3x2 =
     \<lparr>rows = 3, cols = 2, board_mines = 0,
      board_cells = [[revealedCell 0 0 1, revealedCell 0 1 0],
                     [hiddenCell 1 0, hiddenCell 1 1],
                     [revealedCell 2 0 1, hiddenCell 2 1]],
      minesGenerated = False\<rparr>"

text \<open>
  A 3 by 2 board like the one of the second test, the clue at (2,0) being 2: it sees the two
  cells the clue at (0,0) sees and (2,1), with one mine more.
\<close>

definition board3x2two :: Board where
  "board3x2two =
     \<lparr>rows = 3, cols = 2, board_mines = 0,
      board_cells = [[revealedCell 0 0 1, revealedCell 0 1 0],
                     [hiddenCell 1 0, hiddenCell 1 1],
                     [revealedCell 2 0 2, hiddenCell 2 1]],
      minesGenerated = False\<rparr>"

text \<open>
  A 3 by 3 board on which the clue at (0,0) sees two hidden cells and the clue at (1,1)
  sees the same two and two more.
\<close>

definition board3x3 :: Board where
  "board3x3 =
     \<lparr>rows = 3, cols = 3, board_mines = 0,
      board_cells = [[revealedCell 0 0 1, hiddenCell 0 1, hiddenCell 0 2],
                     [hiddenCell 1 0, revealedCell 1 1 2, hiddenCell 1 2],
                     [revealedCell 2 0 0, revealedCell 2 1 0, revealedCell 2 2 0]],
      minesGenerated = False\<rparr>"

text \<open>
  A 2 by 2 board whose clue of 3 at (0,0) has only two hidden neighbours: no assignment of
  mines satisfies it.
\<close>

definition board2x2 :: Board where
  "board2x2 =
     \<lparr>rows = 2, cols = 2, board_mines = 0,
      board_cells = [[revealedCell 0 0 3, revealedCell 0 1 0],
                     [hiddenCell 1 0, hiddenCell 1 1]],
      minesGenerated = False\<rparr>"

text \<open>
  The board of the third test: four by four, hidden cells at (3,0), (1,2), (1,3) and (2,3),
  clues at (2,0), (0,2) and (2,2), every other cell revealed with no adjacent mine.
\<close>

definition board4x4 :: Board where
  "board4x4 =
     \<lparr>rows = 4, cols = 4, board_mines = 0,
      board_cells = [[revealedCell 0 0 0, revealedCell 0 1 0, revealedCell 0 2 1, revealedCell 0 3 0],
                     [revealedCell 1 0 0, revealedCell 1 1 0, hiddenCell 1 2, hiddenCell 1 3],
                     [revealedCell 2 0 1, revealedCell 2 1 0, revealedCell 2 2 1, hiddenCell 2 3],
                     [hiddenCell 3 0, revealedCell 3 1 0, revealedCell 3 2 0, revealedCell 3 3 0]],
      minesGenerated = False\<rparr>"

section \<open>Four constraints in two components\<close>

definition fourConstraints :: "Constraint list" where
  "fourConstraints =
     [\<lparr>cells = [''0,0'', ''0,1''], mines = 1\<rparr>, \<lparr>cells = [''3,0'', ''3,1''], mines = 1\<rparr>,
      \<lparr>cells = [''0,1'', ''0,2''], mines = 1\<rparr>, \<lparr>cells = [''3,1''], mines = 1\<rparr>]"

section \<open>Boards of one column\<close>

text \<open>
  A board of one column and \<open>n\<close> rows, built as the tests build theirs: row \<open>r\<close> is revealed
  with the clue \<open>v\<close> when \<open>clue r\<close> is \<open>Some v\<close>, and hidden when it is \<open>None\<close>, with a flag
  where \<open>flag r\<close> holds.
\<close>

definition columnCell :: "(nat \<Rightarrow> int option) \<Rightarrow> (nat \<Rightarrow> bool) \<Rightarrow> nat \<Rightarrow> Cell" where
  "columnCell clue flag r =
     (case clue r of
        None \<Rightarrow> (hiddenCell r 0)\<lparr>isFlagged := flag r\<rparr>
      | Some v \<Rightarrow> revealedCell r 0 v)"

definition columnBoard :: "nat \<Rightarrow> (nat \<Rightarrow> int option) \<Rightarrow> (nat \<Rightarrow> bool) \<Rightarrow> Board" where
  "columnBoard n clue flag =
     \<lparr>rows = n, cols = 1, board_mines = 0,
      board_cells = map (\<lambda>r. [columnCell clue flag r]) [0..<n],
      minesGenerated = False\<rparr>"

text \<open>The constraint a revealed row of a column board gives, if any.\<close>

definition columnConstraint ::
  "nat \<Rightarrow> (nat \<Rightarrow> int option) \<Rightarrow> (nat \<Rightarrow> bool) \<Rightarrow> nat \<Rightarrow> Constraint list" where
  "columnConstraint n clue flag r =
     (case clue r of
        None \<Rightarrow> []
      | Some v \<Rightarrow>
          (let around = (if 0 < r then [r - 1] else []) @ (if Suc r < n then [Suc r] else []);
               unknown = filter (\<lambda>r'. clue r' = None \<and> \<not> flag r') around;
               remainingMines = v - int (length (filter (\<lambda>r'. clue r' = None \<and> flag r') around))
           in if 0 < v \<and> unknown \<noteq> [] \<and> 0 \<le> remainingMines
              then [\<lparr>cells = map (\<lambda>r'. cellKey r' 0) unknown, mines = remainingMines\<rparr>]
              else []))"

text \<open>
  A ladder: a column board of \<open>2 * m\<close> rows whose even rows are hidden and whose odd row
  \<open>2 * i + 1\<close> is revealed with the clue \<open>w i\<close>. \<open>chainKey i\<close> is the key of its \<open>i\<close>-th hidden
  cell and \<open>rung m w i\<close> the constraint of its \<open>i\<close>-th clue: the hidden cell above it and, but
  for the last row, the one below.
\<close>

definition ladder :: "nat \<Rightarrow> (nat \<Rightarrow> int) \<Rightarrow> Board" where
  "ladder m w =
     columnBoard (2 * m) (\<lambda>r. if even r then None else Some (w (r div 2))) (\<lambda>r. False)"

definition chainKey :: "nat \<Rightarrow> string" where
  "chainKey i = cellKey (2 * i) 0"

definition rung :: "nat \<Rightarrow> (nat \<Rightarrow> int) \<Rightarrow> nat \<Rightarrow> Constraint" where
  "rung m w i =
     \<lparr>cells = chainKey i # (if Suc i < m then [chainKey (Suc i)] else []), mines = w i\<rparr>"

text \<open>
  \<open>quiet k c\<close>: narrowing leaves the constraint \<open>c\<close> and the known sets \<open>k\<close> as they are: no
  cell of \<open>c\<close> is known, and \<open>c\<close> is empty or undecided.
\<close>

definition quiet :: "Known \<Rightarrow> Constraint \<Rightarrow> bool" where
  "quiet k c \<longleftrightarrow>
     (\<forall>key \<in> set (cells c). key \<notin> set (knownSafe k) \<and> key \<notin> set (knownMines k)) \<and>
     0 \<le> mines c \<and> (cells c = [] \<or> (mines c \<noteq> 0 \<and> mines c \<noteq> int (length (cells c))))"

text \<open>
  The ladder of 102 rows with every clue 1: 51 constraints, the first 50 over two cells, the
  last over the hidden cell (100,0) alone.
\<close>

definition ladder51 :: Board where
  "ladder51 = ladder 51 (\<lambda>i. 1)"

text \<open>
  A 3 by 2 board whose clue of 2 at (0,0) sees only the hidden cell (1,0), which the clue
  of 1 at (2,0) sees together with (2,1).
\<close>

definition board3x2neg :: Board where
  "board3x2neg =
     \<lparr>rows = 3, cols = 2, board_mines = 0,
      board_cells = [[revealedCell 0 0 2, revealedCell 0 1 0],
                     [hiddenCell 1 0, revealedCell 1 1 0],
                     [revealedCell 2 0 1, hiddenCell 2 1]],
      minesGenerated = False\<rparr>"





section \<open>Cell keys can be read back\<close>

lemma digit_val_digit_char: "d < 10 \<Longrightarrow> digit_val (digit_char d) = Some d"
  by (simp add: digit_val_def digit_char_def)

lemma digit_char_not_comma: "d < 10 \<Longrightarrow> digit_char d \<noteq> CHR '',''"
proof
  assume "d < 10" and "digit_char d = CHR '',''"
  then have "(of_char (digit_char d) :: nat) = of_char (CHR '','')"
    by simp
  with \<open>d < 10\<close> show False
    by (simp add: digit_char_def)
qed

lemma Number_acc_append:
  "Number_acc a (s @ t) = Option.bind (Number_acc a s) (\<lambda>v. Number_acc v t)"
  by (induction s arbitrary: a) (auto split: option.splits)

lemma Number_str_string_of_nat: "Number_str (string_of_nat n) = Some n"
proof (induction n rule: string_of_nat.induct)
  case (1 n)
  show ?case
  proof (cases "n < 10")
    case True
    then show ?thesis
      by (simp add: string_of_nat.simps [of n] Number_str_def digit_val_digit_char)
  next
    case False
    with 1 have "Number_acc 0 (string_of_nat (n div 10)) = Some (n div 10)"
      by (simp add: Number_str_def)
    with False show ?thesis
      by (simp add: string_of_nat.simps [of n] Number_str_def Number_acc_append
          digit_val_digit_char)
  qed
qed

lemma comma_notin_string_of_nat: "CHR '','' \<notin> set (string_of_nat n)"
proof (induction n rule: string_of_nat.induct)
  case (1 n)
  then show ?case
    using digit_char_not_comma [of n] digit_char_not_comma [of "n mod 10"]
    by (cases "n < 10") (auto simp: string_of_nat.simps [of n])
qed

lemma split_comma_no_comma: "CHR '','' \<notin> set s \<Longrightarrow> split_comma s = [s]"
  by (induction s) auto

lemma split_comma_append:
  "CHR '','' \<notin> set s \<Longrightarrow> split_comma (s @ CHR '','' # t) = s # split_comma t"
  by (induction s) auto

lemma parseKey_cellKey: "parseKey (cellKey r c) = (Some r, Some c)"
  by (simp add: parseKey_def cellKey_def split_comma_append split_comma_no_comma
      comma_notin_string_of_nat Number_str_string_of_nat)

lemma cellKey_inject: "cellKey r c = cellKey r' c' \<longleftrightarrow> r = r' \<and> c = c'"
  by (metis parseKey_cellKey Pair_inject option.inject)

section \<open>The known sets stay disjoint\<close>

lemma narrowCells_snd:
  "snd (narrowCells k cs (ml, rem)) =
     rem @ filter (\<lambda>key. key \<notin> set (knownSafe k) \<and> key \<notin> set (knownMines k)) cs"
  by (induction cs arbitrary: ml rem) auto

lemma markSafe_mines [simp]: "knownMines (markSafe keys k) = knownMines k"
  by (induction keys arbitrary: k) auto

lemma markSafe_safe [simp]: "set (knownSafe (markSafe keys k)) = set (knownSafe k) \<union> set keys"
  by (induction keys arbitrary: k) (auto simp: set_add_def)

lemma markMines_safe [simp]: "knownSafe (markMines keys k) = knownSafe k"
  by (induction keys arbitrary: k) auto

lemma markMines_mines [simp]: "set (knownMines (markMines keys k)) = set (knownMines k) \<union> set keys"
  by (induction keys arbitrary: k) (auto simp: set_add_def)

lemma deduceSafe_mines [simp]: "knownMines (deduceSafe keys k) = knownMines k"
  by (induction keys arbitrary: k) auto

lemma deduceSafe_safe [simp]:
  "set (knownSafe (deduceSafe keys k)) = set (knownSafe k) \<union> (set keys - set (knownMines k))"
  by (induction keys arbitrary: k) (auto simp: set_add_def)

lemma deduceMines_safe [simp]: "knownSafe (deduceMines keys k) = knownSafe k"
  by (induction keys arbitrary: k) auto

lemma deduceMines_mines [simp]:
  "set (knownMines (deduceMines keys k)) = set (knownMines k) \<union> (set keys - set (knownSafe k))"
  by (induction keys arbitrary: k) (auto simp: set_add_def)

lemma updateConstraint_disjoint:
  "disjointKnown k \<Longrightarrow> disjointKnown (snd (updateConstraint c k))"
  by (auto simp: updateConstraint_def Let_def disjointKnown_def narrowCells_snd
      split: prod.splits dest!: arg_cong [where f = snd])

lemma updateConstraints_disjoint:
  "disjointKnown k \<Longrightarrow> disjointKnown (snd (updateConstraints cs k))"
proof (induction cs arbitrary: k)
  case Nil
  then show ?case by simp
next
  case (Cons c cs)
  from Cons.prems have "disjointKnown (snd (updateConstraint c k))"
    by (rule updateConstraint_disjoint)
  from Cons.IH [OF this] show ?case
    by (simp add: split_beta)
qed

lemma comparePair_disjoint:
  "disjointKnown (fst st) \<Longrightarrow> disjointKnown (fst (comparePair cs i j st))"
  by (auto simp: comparePair_def Let_def disjointKnown_def)

lemma fold_invariant:
  assumes step: "\<And>item st. item \<in> set items \<Longrightarrow> Inv st \<Longrightarrow> Inv (body item st)"
    and start: "Inv st0"
  shows "Inv (fold body items st0)"
  using assms by (induction items arbitrary: st0) auto

lemma subsetAnalysis_disjoint:
  "disjointKnown k \<Longrightarrow> disjointKnown (fst (subsetAnalysis cs k))"
  unfolding subsetAnalysis_def
  by (rule fold_invariant [where Inv = "\<lambda>st. disjointKnown (fst st)"])
     (auto intro!: fold_invariant [where Inv = "\<lambda>st. disjointKnown (fst st)"] comparePair_disjoint)

lemma disjointKnown_changed [simp]: "disjointKnown (k\<lparr>changed := v\<rparr>) = disjointKnown k"
  by (simp add: disjointKnown_def)

lemma propagationPass_disjoint:
  assumes "disjointKnown (snd st)"
  shows "disjointKnown (snd (propagationPass st))"
proof -
  obtain cs k where u: "updateConstraints (fst st) (snd st) = (cs, k)"
    by (cases "updateConstraints (fst st) (snd st)")
  obtain k' ds where a: "subsetAnalysis cs k = (k', ds)"
    by (cases "subsetAnalysis cs k")
  from assms u have "disjointKnown k"
    using updateConstraints_disjoint [of "snd st" "fst st"] by simp
  with a have "disjointKnown k'"
    using subsetAnalysis_disjoint [of k cs] by simp
  with u a show ?thesis
    by (simp add: propagationPass_def)
qed

lemma loopBody_disjoint: "disjointKnown (snd st) \<Longrightarrow> disjointKnown (snd (loopBody st))"
  by (simp add: loopBody_def propagationPass_disjoint)

lemma passes_Suc: "passes (Suc n) b = loopBody (passes n b)"
  by (simp add: passes_def)

lemma passes_0: "passes 0 b = (snd (buildConstraints b), initialKnown)"
  by (simp add: passes_def)

lemma passes_disjoint: "disjointKnown (snd (passes n b))"
proof (induction n)
  case 0
  show ?case by (simp add: passes_0 disjointKnown_def initialKnown_def)
next
  case (Suc n)
  then show ?case by (simp only: passes_Suc loopBody_disjoint)
qed

text \<open>The loop stops at the state after some number of turns, at most \<open>maxIterations\<close>.\<close>

lemma propagate_funpow:
  "\<exists>n. i + n \<le> max i maxIterations \<and> propagate i st = (loopBody ^^ n) st"
proof (induction i st rule: propagate.induct)
  case (1 i st)
  show ?case
  proof (cases "changed (snd st) \<and> i < maxIterations")
    case True
    have body: "propagationPass (fst st, (snd st)\<lparr>changed := False\<rparr>) = loopBody st"
      by (simp add: loopBody_def)
    from 1 [OF True] obtain n where
      n: "i + 1 + n \<le> max (i + 1) maxIterations"
         "propagate (i + 1) (loopBody st) = (loopBody ^^ n) (loopBody st)"
      unfolding body by blast
    have "propagate i st = propagate (i + 1) (loopBody st)"
      using True by (subst propagate.simps) (simp add: body)
    with n have "propagate i st = (loopBody ^^ Suc n) st"
      by (simp add: funpow_swap1)
    moreover from True n have "i + Suc n \<le> max i maxIterations" by simp
    ultimately show ?thesis by blast
  next
    case False
    then have "propagate i st = (loopBody ^^ 0) st"
      by (subst propagate.simps) auto
    then show ?thesis by (metis add_0_right max.cobounded1)
  qed
qed

lemma propagated_passes: "\<exists>n \<le> maxIterations. propagated b = passes n b"
  using propagate_funpow [of 0 "(snd (buildConstraints b), initialKnown)"]
  by (auto simp: propagated_def passes_def)

text \<open>
  Claim C5. For every board, the known-safe set and the known-mine set have no cell in
  common: after any number of turns of the propagation loop, between the two phases of the
  next turn (after the narrowing and the basic deductions, before the subset analysis), and
  in the state the loop ends in.
\<close>

theorem known_sets_disjoint:
  "set (knownSafe (snd (passes n b))) \<inter> set (knownMines (snd (passes n b))) = {} \<and>
   (let k = snd (updateConstraints (fst (passes n b)) ((snd (passes n b))\<lparr>changed := False\<rparr>))
    in set (knownSafe k) \<inter> set (knownMines k) = {}) \<and>
   set (knownSafe (snd (propagated b))) \<inter> set (knownMines (snd (propagated b))) = {}"
proof -
  have 1: "disjointKnown (snd (passes n b))" for n
    by (rule passes_disjoint)
  then have "disjointKnown ((snd (passes n b))\<lparr>changed := False\<rparr>)"
    by simp
  then have 2: "disjointKnown
      (snd (updateConstraints (fst (passes n b)) ((snd (passes n b))\<lparr>changed := False\<rparr>)))"
    by (rule updateConstraints_disjoint)
  obtain m where "propagated b = passes m b"
    using propagated_passes by blast
  with 1 [of m] have 3: "disjointKnown (snd (propagated b))"
    by simp
  from 1 [of n] 2 3 show ?thesis
    by (simp add: disjointKnown_def Let_def)
qed

theorem known_sets_disjoint_witness:
  "knownSafe (snd (propagated board4x4)) = [''2,3''] \<and>
   knownMines (snd (propagated board4x4)) = [''3,0''] \<and>
   set (knownSafe (snd (propagated board4x4))) \<inter> set (knownMines (snd (propagated board4x4))) = {}"
proof -
  have "snd (propagated board4x4) =
      \<lparr>knownSafe = [''2,3''], knownMines = [''3,0''], changed = False\<rparr>"
    by code_simp
  then show ?thesis
    using known_sets_disjoint [of 0 board4x4] by simp
qed

section \<open>Derived constraints and duplicates\<close>

lemma derivedExists_iff:
  "derivedExists ds difference diffMines \<longleftrightarrow>
     (\<exists>dc \<in> set ds. sameDerived dc \<lparr>cells = difference, mines = diffMines\<rparr>)"
  by (auto simp: derivedExists_def sameDerived_def list_ex_iff list_all_iff)

lemma pairwiseDerived_snoc:
  assumes "pairwiseDerived ds" and "\<forall>dc \<in> set ds. \<not> sameDerived dc d"
  shows "pairwiseDerived (ds @ [d])"
  unfolding pairwiseDerived_def
proof (intro allI impI)
  fix j i
  assume j: "j < length (ds @ [d])" and i: "i < j"
  show "\<not> sameDerived ((ds @ [d]) ! i) ((ds @ [d]) ! j)"
  proof (cases "j < length ds")
    case True
    with i assms(1) show ?thesis
      by (simp add: pairwiseDerived_def nth_append)
  next
    case False
    with j have "j = length ds" by simp
    with i assms(2) show ?thesis
      by (simp add: nth_append)
  qed
qed

lemma comparePair_pairwise:
  "pairwiseDerived (snd st) \<Longrightarrow> pairwiseDerived (snd (comparePair cs i j st))"
  by (auto simp: comparePair_def Let_def derivedExists_iff intro!: pairwiseDerived_snoc)

lemma compareRow_pairwise:
  "pairwiseDerived (snd st) \<Longrightarrow> pairwiseDerived (snd (fold (comparePair cs i) js st))"
  by (rule fold_invariant [where Inv = "\<lambda>st. pairwiseDerived (snd st)"])
     (simp_all add: comparePair_pairwise)

lemma subsetAnalysis_pairwise: "pairwiseDerived (snd (subsetAnalysis cs k))"
  unfolding subsetAnalysis_def
proof (rule fold_invariant [where Inv = "\<lambda>st. pairwiseDerived (snd st)"])
  show "pairwiseDerived (snd (k, []))"
    by (simp add: pairwiseDerived_def)
qed (simp add: compareRow_pairwise)

lemma propagationPass_constraints:
  "fst (propagationPass st) =
     fst (updateConstraints (fst st) (snd st)) @
     snd (subsetAnalysis (fst (updateConstraints (fst st) (snd st)))
            (snd (updateConstraints (fst st) (snd st))))"
  by (simp add: propagationPass_def split_beta)

text \<open>
  Claim C4, as stated, fails. On the 3 by 3 board the first pass derives the constraint
  over (0,2) and (1,2) with one mine and appends it; the second pass derives it again and
  appends it again, although the constraint list already holds it: the test of lines
  153-158 looks only at the constraints derived in the current pass.
\<close>

theorem derived_duplicates_counterexample:
  "fst (passes 1 board3x3) =
     [\<lparr>cells = [''0,1'', ''1,0''], mines = 1\<rparr>,
      \<lparr>cells = [''0,1'', ''0,2'', ''1,0'', ''1,2''], mines = 2\<rparr>,
      \<lparr>cells = [''0,2'', ''1,2''], mines = 1\<rparr>] \<and>
   fst (passes 2 board3x3) =
     [\<lparr>cells = [''0,1'', ''1,0''], mines = 1\<rparr>,
      \<lparr>cells = [''0,1'', ''0,2'', ''1,0'', ''1,2''], mines = 2\<rparr>,
      \<lparr>cells = [''0,2'', ''1,2''], mines = 1\<rparr>,
      \<lparr>cells = [''0,2'', ''1,2''], mines = 1\<rparr>,
      \<lparr>cells = [''0,1'', ''1,0''], mines = 1\<rparr>]"
  by code_simp

text \<open>
  Claim C4, amended. A pass appends to the constraint list the constraints it derived, and
  a derived constraint joins that list only if no constraint derived earlier in the same
  pass has the same number of cells, the same mine count and all its cells among the new
  cells: the constraints derived in one pass differ pairwise in that sense. (Constraints
  derived in different passes may be identical.)
\<close>

theorem derived_distinct_within_pass:
  "fst (propagationPass st) =
     fst (updateConstraints (fst st) (snd st)) @
     snd (subsetAnalysis (fst (updateConstraints (fst st) (snd st)))
            (snd (updateConstraints (fst st) (snd st)))) \<and>
   (\<forall>j < length (snd (subsetAnalysis cs k)). \<forall>i < j.
      \<not> sameDerived (snd (subsetAnalysis cs k) ! i) (snd (subsetAnalysis cs k) ! j))"
  using subsetAnalysis_pairwise [of cs k] propagationPass_constraints [of st]
  by (simp add: pairwiseDerived_def)

theorem derived_distinct_within_pass_witness:
  "snd (subsetAnalysis (fst (passes 1 board3x3)) initialKnown) =
     [\<lparr>cells = [''0,2'', ''1,2''], mines = 1\<rparr>, \<lparr>cells = [''0,1'', ''1,0''], mines = 1\<rparr>] \<and>
   (0::nat) < 1 \<and> 1 < length (snd (subsetAnalysis (fst (passes 1 board3x3)) initialKnown)) \<and>
   \<not> sameDerived (snd (subsetAnalysis (fst (passes 1 board3x3)) initialKnown) ! 0)
        (snd (subsetAnalysis (fst (passes 1 board3x3)) initialKnown) ! 1)"
proof -
  have v: "snd (subsetAnalysis (fst (passes 1 board3x3)) initialKnown) =
     [\<lparr>cells = [''0,2'', ''1,2''], mines = 1\<rparr>, \<lparr>cells = [''0,1'', ''1,0''], mines = 1\<rparr>]"
    by code_simp
  then have len: "1 < length (snd (subsetAnalysis (fst (passes 1 board3x3)) initialKnown))"
    by simp
  from derived_distinct_within_pass [of _ "fst (passes 1 board3x3)" initialKnown] len
  have "\<not> sameDerived (snd (subsetAnalysis (fst (passes 1 board3x3)) initialKnown) ! 0)
        (snd (subsetAnalysis (fst (passes 1 board3x3)) initialKnown) ! 1)"
    by blast
  with v len show ?thesis by simp
qed


lemma column_getCell:
  "r < n \<Longrightarrow> getCell (columnBoard n clue flag) (int r) 0 = Some (columnCell clue flag r)"
  by (simp add: getCell_def isValidCell_def columnBoard_def)

lemma column_neighbors:
  assumes "r < n"
  shows "getNeighbors (columnBoard n clue flag) (int r) 0 =
     map (columnCell clue flag)
       ((if 0 < r then [r - 1] else []) @ (if Suc r < n then [Suc r] else []))"
proof -
  have up: "nat (int r + 1) = Suc r" by simp
  have down: "nat (int r - 1) = r - 1" by simp
  show ?thesis
    using assms
    by (auto simp: getNeighbors_def directions_def isValidCell_def columnBoard_def up down)
qed

lemma columnCell_fields:
  "isFlagged (columnCell clue flag r) \<longleftrightarrow> clue r = None \<and> flag r"
  "isRevealed (columnCell clue flag r) \<longleftrightarrow> clue r \<noteq> None"
  "row (columnCell clue flag r) = r" "col (columnCell clue flag r) = 0"
  "clue r = Some v \<Longrightarrow> adjacentMines (columnCell clue flag r) = v"
  by (simp_all add: columnCell_def hiddenCell_def revealedCell_def split: option.splits)

lemma column_scanCell:
  assumes "r < n"
  shows "snd (scanCell (columnBoard n clue flag) r 0 st) = snd st @ columnConstraint n clue flag r"
proof (cases "clue r")
  case None
  have gc: "getCell (columnBoard n clue flag) (int r) (int 0) = Some (columnCell clue flag r)"
    using column_getCell [OF assms] by simp
  from None show ?thesis
    unfolding scanCell_def gc by (simp add: columnCell_fields columnConstraint_def Let_def)
next
  case (Some v)
  let ?ns = "(if 0 < r then [r - 1] else []) @ (if Suc r < n then [Suc r] else [])"
  have unknown: "filter (\<lambda>n. \<not> isRevealed n \<and> \<not> isFlagged n) (map (columnCell clue flag) ?ns) =
      map (columnCell clue flag) (filter (\<lambda>r'. clue r' = None \<and> \<not> flag r') ?ns)"
    unfolding filter_map comp_def columnCell_fields
    by (rule arg_cong [where f = "map (columnCell clue flag)"], rule filter_cong) auto
  have flagged: "filter isFlagged (map (columnCell clue flag) ?ns) =
      map (columnCell clue flag) (filter (\<lambda>r'. clue r' = None \<and> flag r') ?ns)"
    unfolding filter_map comp_def columnCell_fields ..
  have gc: "getCell (columnBoard n clue flag) (int r) (int 0) = Some (columnCell clue flag r)"
    using column_getCell [OF assms] by simp
  have gn: "getNeighbors (columnBoard n clue flag) (int r) (int 0) = map (columnCell clue flag) ?ns"
    using column_neighbors [OF assms] by simp
  show ?thesis
    using Some
    unfolding scanCell_def gc gn Let_def unknown flagged columnConstraint_def
    by (simp add: columnCell_fields comp_def)
qed

lemma fold_snd_append:
  assumes "\<And>r st. r \<in> set rs \<Longrightarrow> snd (f r st) = snd st @ g r"
  shows "snd (fold f rs st) = snd st @ concat (map g rs)"
  using assms by (induction rs arbitrary: st) simp_all

lemma column_constraints:
  "snd (buildConstraints (columnBoard n clue flag)) =
     concat (map (columnConstraint n clue flag) [0..<n])"
proof -
  have dims: "[0..<cols (columnBoard n clue flag)] = [0]" "rows (columnBoard n clue flag) = n"
    by (simp_all add: columnBoard_def)
  have "snd (fold (\<lambda>r st. fold (\<lambda>c st'. scanCell (columnBoard n clue flag) r c st') [0] st)
            [0..<n] ([], [])) =
      snd ([] :: string list, [] :: Constraint list) @
      concat (map (columnConstraint n clue flag) [0..<n])"
    by (rule fold_snd_append) (simp add: column_scanCell)
  then show ?thesis
    unfolding buildConstraints_def dims by simp
qed

lemma concat_even_odd:
  "concat (map g [0..<2 * m]) = concat (map (\<lambda>i. g (2 * i) @ g (Suc (2 * i))) [0..<m])"
  by (induction m) simp_all

lemma concat_map_if:
  "concat (map (\<lambda>i. if P i then [f i] else []) xs) = map f (filter P xs)"
  by (induction xs) simp_all

lemma ladder_constraints:
  "snd (buildConstraints (ladder m w)) = map (rung m w) (filter (\<lambda>i. 0 < w i) [0..<m])"
proof -
  let ?clue = "\<lambda>r. if even r then None else Some (w (r div 2))"
  let ?row = "columnConstraint (2 * m) ?clue (\<lambda>r. False)"
  have even: "?row (2 * i) = []" for i
    by (simp add: columnConstraint_def)
  have odd: "?row (Suc (2 * i)) = (if 0 < w i then [rung m w i] else [])" if "i < m" for i
  proof -
    have "Suc (Suc (2 * i)) < 2 * m \<longleftrightarrow> Suc i < m"
      by auto
    then show ?thesis
      by (simp add: columnConstraint_def rung_def chainKey_def Let_def)
  qed
  have "concat (map ?row [0..<2 * m]) =
      concat (map (\<lambda>i. ?row (2 * i) @ ?row (Suc (2 * i))) [0..<m])"
    by (rule concat_even_odd)
  also have "\<dots> = concat (map (\<lambda>i. if 0 < w i then [rung m w i] else []) [0..<m])"
    by (rule arg_cong [where f = concat], rule map_cong) (simp_all add: even odd)
  also have "\<dots> = map (rung m w) (filter (\<lambda>i. 0 < w i) [0..<m])"
    by (rule concat_map_if)
  finally show ?thesis
    by (simp add: ladder_def column_constraints)
qed


lemma chainKey_inject [simp]: "chainKey i = chainKey j \<longleftrightarrow> i = j"
  by (simp add: chainKey_def cellKey_inject)

lemma narrowCells_unknown:
  "\<forall>key \<in> set keys. key \<notin> set (knownSafe k) \<and> key \<notin> set (knownMines k) \<Longrightarrow>
   narrowCells k keys (m, acc) = (m, acc @ keys)"
  by (induction keys arbitrary: acc) simp_all

lemma updateConstraint_quiet: "quiet k c \<Longrightarrow> updateConstraint c k = (c, k)"
  unfolding quiet_def updateConstraint_def
  by (auto simp: narrowCells_unknown Let_def)

lemma updateConstraints_quiet: "\<forall>c \<in> set cs. quiet k c \<Longrightarrow> updateConstraints cs k = (cs, k)"
  by (induction cs) (simp_all add: updateConstraint_quiet)

lemma updateConstraints_append:
  "updateConstraints (xs @ ys) k =
     (fst (updateConstraints xs k) @ fst (updateConstraints ys (snd (updateConstraints xs k))),
      snd (updateConstraints ys (snd (updateConstraints xs k))))"
  by (induction xs arbitrary: k) (simp_all add: split_beta)

lemma fold_unchanged: "(\<And>x s. x \<in> set xs \<Longrightarrow> f x s = s) \<Longrightarrow> fold f xs st = st"
  by (induction xs) simp_all

lemma subsetAnalysis_same_size:
  assumes "\<And>i j. i < min (length cs) 50 \<Longrightarrow> j < length cs \<Longrightarrow>
      cells (cs ! i) = [] \<or> length (cells (cs ! j)) \<le> length (cells (cs ! i))"
  shows "subsetAnalysis cs k = (k, [])"
  unfolding subsetAnalysis_def
proof (rule fold_unchanged)
  fix i s
  assume "i \<in> set [0..<maxConstraintsToCompare cs]"
  then have i: "i < min (length cs) 50"
    by (simp add: maxConstraintsToCompare_def)
  show "(if length (cells (cs ! i)) = 0 then s
         else fold (comparePair cs i) [0..<length cs] s) = s"
  proof (cases "cells (cs ! i) = []")
    case True
    then show ?thesis by simp
  next
    case False
    have "fold (comparePair cs i) [0..<length cs] s = s"
    proof (rule fold_unchanged)
      fix j s'
      assume "j \<in> set [0..<length cs]"
      with assms [OF i, of j] False have "length (cells (cs ! j)) \<le> length (cells (cs ! i))"
        by simp
      then show "comparePair cs i j s' = s'"
        by (simp add: comparePair_def Let_def)
    qed
    then show ?thesis by simp
  qed
qed


section \<open>Which pairs the subset analysis compares\<close>

lemma grows_refl: "grows st st"
  by (simp add: grows_def)

lemma grows_trans: "grows a b \<Longrightarrow> grows b c \<Longrightarrow> grows a c"
  unfolding grows_def by blast

lemma comparePair_grows: "grows st (comparePair cs i j st)"
  by (auto simp: comparePair_def Let_def grows_def)

lemma compareRow_grows: "grows st (fold (comparePair cs i) js st)"
proof (induction js arbitrary: st)
  case Nil
  show ?case by (simp add: grows_def)
next
  case (Cons j js)
  from comparePair_grows [of st cs i j] Cons [of "comparePair cs i j st"]
  show ?case by (auto simp: grows_def)
qed

lemma fold_upt_split:
  assumes "j < n"
  shows "fold f [0..<n] s = fold f [Suc j..<n] (f j (fold f [0..<j] s))"
proof -
  have "[0..<n] = [0..<j] @ j # [Suc j..<n]"
    using assms upt_add_eq_append [of 0 j "n - j"] by (simp add: upt_conv_Cons)
  then show ?thesis by simp
qed

lemma analysisRows_grows:
  "grows st (fold (\<lambda>i st. if length (cells (cs ! i)) = 0 then st
                  else fold (comparePair cs i) [0..<length cs] st) is st)"
proof (rule fold_invariant [where Inv = "grows st"])
  show "grows st st" by (rule grows_refl)
  show "grows st (if length (cells (cs ! i)) = 0 then st'
        else fold (comparePair cs i) [0..<length cs] st')" if "grows st st'" for i st'
    using that compareRow_grows [of st' cs i] by (auto intro: grows_trans)
qed

lemma subsetAnalysis_after_pair:
  assumes "i < maxConstraintsToCompare cs" and "cells (cs ! i) \<noteq> []" and "j < length cs"
  shows "grows (comparePair cs i j (analysisBefore cs k i j)) (subsetAnalysis cs k)"
proof -
  let ?row = "\<lambda>i st. if length (cells (cs ! i)) = 0 then st
                  else fold (comparePair cs i) [0..<length cs] st"
  let ?s0 = "fold ?row [0..<i] (k, [])"
  have "subsetAnalysis cs k = fold ?row [Suc i..<maxConstraintsToCompare cs] (?row i ?s0)"
    unfolding subsetAnalysis_def using assms(1) by (rule fold_upt_split)
  also have "?row i ?s0 = fold (comparePair cs i) [0..<length cs] ?s0"
    using assms(2) by simp
  also have "\<dots> = fold (comparePair cs i) [Suc j..<length cs]
      (comparePair cs i j (fold (comparePair cs i) [0..<j] ?s0))"
    using assms(3) by (rule fold_upt_split)
  also have "fold (comparePair cs i) [0..<j] ?s0 = analysisBefore cs k i j"
    by (simp add: analysisBefore_def)
  finally have "subsetAnalysis cs k =
      fold ?row [Suc i..<maxConstraintsToCompare cs]
        (fold (comparePair cs i) [Suc j..<length cs]
           (comparePair cs i j (analysisBefore cs k i j)))" .
  moreover have "grows (comparePair cs i j (analysisBefore cs k i j))
      (fold (comparePair cs i) [Suc j..<length cs] (comparePair cs i j (analysisBefore cs k i j)))"
    by (rule compareRow_grows)
  moreover have "grows (fold (comparePair cs i) [Suc j..<length cs]
        (comparePair cs i j (analysisBefore cs k i j)))
      (fold ?row [Suc i..<maxConstraintsToCompare cs]
        (fold (comparePair cs i) [Suc j..<length cs]
           (comparePair cs i j (analysisBefore cs k i j))))"
    by (rule analysisRows_grows)
  ultimately show ?thesis
    by (auto intro: grows_trans)
qed

text \<open>
  Claim C3, amended. In a pass, let \<open>cs\<close> and \<open>k\<close> be the constraint list and the known sets
  after the narrowing. For every ordered pair of indices \<open>(i, j)\<close> with \<open>i\<close> among the first
  50, \<open>cs ! i\<close> not empty, all its cells among those of \<open>cs ! j\<close> and fewer in number, a
  non-empty difference and a mine difference that is not negative, the pair is compared,
  and with the known sets \<open>before\<close> as they are when the loops reach it: if the mine
  difference is 0, every cell of the difference is known safe after the pass, unless it
  was known a mine before; if the mine difference is the size of the difference, every
  cell of the difference is known a mine after the pass, unless it was known safe before;
  otherwise the constraint list after the pass holds a derived constraint with the same
  number of cells and the same mine count, all of whose cells are in the difference.
\<close>

theorem subset_pairs_within_limit:
  assumes "cs = fst (updateConstraints (fst st) (snd st))"
    and "k = snd (updateConstraints (fst st) (snd st))"
    and "i < min (length cs) 50" and "cells (cs ! i) \<noteq> []"
    and "j < length cs" and "i \<noteq> j"
    and "set (cells (cs ! i)) \<subseteq> set (cells (cs ! j))"
    and "length (cells (cs ! i)) < length (cells (cs ! j))"
    and "difference = filter (\<lambda>cell. cell \<notin> set (cells (cs ! i))) (cells (cs ! j))"
    and "difference \<noteq> []"
    and "diffMines = mines (cs ! j) - mines (cs ! i)"
    and "diffMines \<ge> 0"
    and "before = fst (analysisBefore cs k i j)"
  shows "if diffMines = 0
         then set difference - set (knownMines before) \<subseteq>
                set (knownSafe (snd (propagationPass st)))
         else if diffMines = int (length difference)
         then set difference - set (knownSafe before) \<subseteq>
                set (knownMines (snd (propagationPass st)))
         else \<exists>dc \<in> set (fst (propagationPass st)).
                sameDerived dc \<lparr>cells = difference, mines = diffMines\<rparr>"
proof -
  have u: "updateConstraints (fst st) (snd st) = (cs, k)"
    using assms(1,2) by simp
  obtain k' ds where a: "subsetAnalysis cs k = (k', ds)"
    by (cases "subsetAnalysis cs k")
  let ?s = "analysisBefore cs k i j"
  let ?s' = "comparePair cs i j ?s"
  have "i < maxConstraintsToCompare cs"
    using assms(3) by (simp add: maxConstraintsToCompare_def)
  from subsetAnalysis_after_pair [OF this assms(4,5), of k] a
  have later: "set (knownSafe (fst ?s')) \<subseteq> set (knownSafe k')"
    "set (knownMines (fst ?s')) \<subseteq> set (knownMines k')" "set (snd ?s') \<subseteq> set ds"
    by (simp_all add: grows_def)
  have c2: "length (cells (cs ! j)) \<noteq> 0"
    using assms(8) by auto
  have sub: "list_all (\<lambda>cell. cell \<in> set (cells (cs ! j))) (cells (cs ! i))"
    using assms(7) by (auto simp: list_all_iff)
  have step: "?s' =
     (if diffMines = 0 then (deduceSafe difference (fst ?s), snd ?s)
      else if diffMines = int (length difference) then (deduceMines difference (fst ?s), snd ?s)
      else if \<not> derivedExists (snd ?s) difference diffMines
      then (fst ?s, snd ?s @ [\<lparr>cells = difference, mines = diffMines\<rparr>])
      else ?s)"
    using assms(6,8,10,12) c2 sub
    unfolding comparePair_def Let_def assms(9) [symmetric] assms(11) [symmetric]
    by simp
  have pass: "fst (propagationPass st) = cs @ ds"
    "knownSafe (snd (propagationPass st)) = knownSafe k'"
    "knownMines (snd (propagationPass st)) = knownMines k'"
    using u a by (simp_all add: propagationPass_def)
  show ?thesis
  proof (cases "diffMines = 0")
    case True
    with step have "set (knownSafe (fst ?s')) =
        set (knownSafe (fst ?s)) \<union> (set difference - set (knownMines (fst ?s)))"
      by simp
    with later(1) True show ?thesis
      unfolding pass assms(13) by auto
  next
    case False
    show ?thesis
    proof (cases "diffMines = int (length difference)")
      case True
      with False step have "set (knownMines (fst ?s')) =
          set (knownMines (fst ?s)) \<union> (set difference - set (knownSafe (fst ?s)))"
        by simp
      with later(2) True False show ?thesis
        unfolding pass assms(13) by auto
    next
      case full: False
      have "\<exists>dc \<in> set (snd ?s'). sameDerived dc \<lparr>cells = difference, mines = diffMines\<rparr>"
      proof (cases "derivedExists (snd ?s) difference diffMines")
        case True
        then have "\<exists>dc \<in> set (snd ?s). sameDerived dc \<lparr>cells = difference, mines = diffMines\<rparr>"
          by (simp only: derivedExists_iff)
        moreover from step False full True have "?s' = ?s"
          by simp
        ultimately show ?thesis by simp
      next
        case False
        with step \<open>diffMines \<noteq> 0\<close> full have
          "\<lparr>cells = difference, mines = diffMines\<rparr> \<in> set (snd ?s')"
          by simp
        moreover have "sameDerived \<lparr>cells = difference, mines = diffMines\<rparr>
            \<lparr>cells = difference, mines = diffMines\<rparr>"
          by (simp add: sameDerived_def)
        ultimately show ?thesis by blast
      qed
      with later(3) False full show ?thesis
        unfolding pass by auto
    qed
  qed
qed

theorem subset_pairs_within_limit_witness:
  "fst (updateConstraints (fst (passes 0 board3x3)) (snd (passes 0 board3x3))) =
     [\<lparr>cells = [''0,1'', ''1,0''], mines = 1\<rparr>,
      \<lparr>cells = [''0,1'', ''0,2'', ''1,0'', ''1,2''], mines = 2\<rparr>] \<and>
   (\<exists>dc \<in> set (fst (propagationPass (passes 0 board3x3))).
      sameDerived dc \<lparr>cells = [''0,2'', ''1,2''], mines = 1\<rparr>) \<and>
   propagationPass (passes 0 board3x3) =
     ([\<lparr>cells = [''0,1'', ''1,0''], mines = 1\<rparr>,
       \<lparr>cells = [''0,1'', ''0,2'', ''1,0'', ''1,2''], mines = 2\<rparr>,
       \<lparr>cells = [''0,2'', ''1,2''], mines = 1\<rparr>],
      \<lparr>knownSafe = [], knownMines = [], changed = True\<rparr>) \<and>
   fst (updateConstraints (fst (passes 0 board3x2)) (snd (passes 0 board3x2))) =
     [\<lparr>cells = [''1,0'', ''1,1''], mines = 1\<rparr>,
      \<lparr>cells = [''1,0'', ''1,1'', ''2,1''], mines = 1\<rparr>] \<and>
   knownMines (fst (analysisBefore
      (fst (updateConstraints (fst (passes 0 board3x2)) (snd (passes 0 board3x2))))
      (snd (updateConstraints (fst (passes 0 board3x2)) (snd (passes 0 board3x2)))) 0 1)) = [] \<and>
   ''2,1'' \<in> set (knownSafe (snd (propagationPass (passes 0 board3x2)))) \<and>
   snd (propagationPass (passes 0 board3x2)) =
     \<lparr>knownSafe = [''2,1''], knownMines = [], changed = True\<rparr> \<and>
   fst (updateConstraints (fst (passes 0 board3x2two)) (snd (passes 0 board3x2two))) =
     [\<lparr>cells = [''1,0'', ''1,1''], mines = 1\<rparr>,
      \<lparr>cells = [''1,0'', ''1,1'', ''2,1''], mines = 2\<rparr>] \<and>
   knownSafe (fst (analysisBefore
      (fst (updateConstraints (fst (passes 0 board3x2two)) (snd (passes 0 board3x2two))))
      (snd (updateConstraints (fst (passes 0 board3x2two)) (snd (passes 0 board3x2two)))) 0 1)) = [] \<and>
   ''2,1'' \<in> set (knownMines (snd (propagationPass (passes 0 board3x2two)))) \<and>
   snd (propagationPass (passes 0 board3x2two)) =
     \<lparr>knownSafe = [], knownMines = [''2,1''], changed = True\<rparr>"
proof -
  define cs where "cs = fst (updateConstraints (fst (passes 0 board3x3)) (snd (passes 0 board3x3)))"
  define k where "k = snd (updateConstraints (fst (passes 0 board3x3)) (snd (passes 0 board3x3)))"
  have v: "cs = [\<lparr>cells = [''0,1'', ''1,0''], mines = 1\<rparr>,
      \<lparr>cells = [''0,1'', ''0,2'', ''1,0'', ''1,2''], mines = 2\<rparr>]"
    unfolding cs_def by code_simp
  have "if (1::int) = 0
        then set [''0,2'', ''1,2''] - set (knownMines (fst (analysisBefore cs k 0 1))) \<subseteq>
               set (knownSafe (snd (propagationPass (passes 0 board3x3))))
        else if (1::int) = int (length [''0,2'', ''1,2''])
        then set [''0,2'', ''1,2''] - set (knownSafe (fst (analysisBefore cs k 0 1))) \<subseteq>
               set (knownMines (snd (propagationPass (passes 0 board3x3))))
        else \<exists>dc \<in> set (fst (propagationPass (passes 0 board3x3))).
               sameDerived dc \<lparr>cells = [''0,2'', ''1,2''], mines = 1\<rparr>"
    by (rule subset_pairs_within_limit [where cs = cs and k = k and i = 0 and j = 1])
       (simp_all add: cs_def [symmetric] k_def [symmetric], simp_all add: v)
  then have append: "\<exists>dc \<in> set (fst (propagationPass (passes 0 board3x3))).
      sameDerived dc \<lparr>cells = [''0,2'', ''1,2''], mines = 1\<rparr>"
    by simp
  define cs2 where "cs2 = fst (updateConstraints (fst (passes 0 board3x2)) (snd (passes 0 board3x2)))"
  define k2 where "k2 = snd (updateConstraints (fst (passes 0 board3x2)) (snd (passes 0 board3x2)))"
  have v2: "cs2 = [\<lparr>cells = [''1,0'', ''1,1''], mines = 1\<rparr>,
      \<lparr>cells = [''1,0'', ''1,1'', ''2,1''], mines = 1\<rparr>]"
    unfolding cs2_def by code_simp
  have b2: "knownMines (fst (analysisBefore cs2 k2 0 1)) = []"
    unfolding cs2_def k2_def by code_simp
  have "if (0::int) = 0
        then set [''2,1''] - set (knownMines (fst (analysisBefore cs2 k2 0 1))) \<subseteq>
               set (knownSafe (snd (propagationPass (passes 0 board3x2))))
        else if (0::int) = int (length [''2,1''])
        then set [''2,1''] - set (knownSafe (fst (analysisBefore cs2 k2 0 1))) \<subseteq>
               set (knownMines (snd (propagationPass (passes 0 board3x2))))
        else \<exists>dc \<in> set (fst (propagationPass (passes 0 board3x2))).
               sameDerived dc \<lparr>cells = [''2,1''], mines = 0\<rparr>"
    by (rule subset_pairs_within_limit [where cs = cs2 and k = k2 and i = 0 and j = 1])
       (simp_all add: cs2_def [symmetric] k2_def [symmetric], simp_all add: v2)
  with b2 have safe: "''2,1'' \<in> set (knownSafe (snd (propagationPass (passes 0 board3x2))))"
    by simp
  define cs3 where
    "cs3 = fst (updateConstraints (fst (passes 0 board3x2two)) (snd (passes 0 board3x2two)))"
  define k3 where
    "k3 = snd (updateConstraints (fst (passes 0 board3x2two)) (snd (passes 0 board3x2two)))"
  have v3: "cs3 = [\<lparr>cells = [''1,0'', ''1,1''], mines = 1\<rparr>,
      \<lparr>cells = [''1,0'', ''1,1'', ''2,1''], mines = 2\<rparr>]"
    unfolding cs3_def by code_simp
  have b3: "knownSafe (fst (analysisBefore cs3 k3 0 1)) = []"
    unfolding cs3_def k3_def by code_simp
  have "if (1::int) = 0
        then set [''2,1''] - set (knownMines (fst (analysisBefore cs3 k3 0 1))) \<subseteq>
               set (knownSafe (snd (propagationPass (passes 0 board3x2two))))
        else if (1::int) = int (length [''2,1''])
        then set [''2,1''] - set (knownSafe (fst (analysisBefore cs3 k3 0 1))) \<subseteq>
               set (knownMines (snd (propagationPass (passes 0 board3x2two))))
        else \<exists>dc \<in> set (fst (propagationPass (passes 0 board3x2two))).
               sameDerived dc \<lparr>cells = [''2,1''], mines = 1\<rparr>"
    by (rule subset_pairs_within_limit [where cs = cs3 and k = k3 and i = 0 and j = 1])
       (simp_all add: cs3_def [symmetric] k3_def [symmetric], simp_all add: v3)
  with b3 have mine: "''2,1'' \<in> set (knownMines (snd (propagationPass (passes 0 board3x2two))))"
    by simp
  have r1: "propagationPass (passes 0 board3x3) =
     ([\<lparr>cells = [''0,1'', ''1,0''], mines = 1\<rparr>,
       \<lparr>cells = [''0,1'', ''0,2'', ''1,0'', ''1,2''], mines = 2\<rparr>,
       \<lparr>cells = [''0,2'', ''1,2''], mines = 1\<rparr>],
      \<lparr>knownSafe = [], knownMines = [], changed = True\<rparr>)"
    by code_simp
  have r2: "snd (propagationPass (passes 0 board3x2)) =
      \<lparr>knownSafe = [''2,1''], knownMines = [], changed = True\<rparr>"
    by code_simp
  have r3: "snd (propagationPass (passes 0 board3x2two)) =
      \<lparr>knownSafe = [], knownMines = [''2,1''], changed = True\<rparr>"
    by code_simp
  from v append v2 b2 safe v3 b3 mine show ?thesis
    unfolding cs_def k_def cs2_def k2_def cs3_def k3_def
    by (intro conjI r1 r2 r3) simp_all
qed


lemma rung_pair: "Suc i < m \<Longrightarrow> rung m w i = \<lparr>cells = [chainKey i, chainKey (Suc i)], mines = w i\<rparr>"
  by (simp add: rung_def)

lemma rung_last: "rung (Suc i) w i = \<lparr>cells = [chainKey i], mines = w i\<rparr>"
  by (simp add: rung_def)

lemma ladder51_constraints:
  "snd (buildConstraints ladder51) =
     map (rung 51 (\<lambda>i. 1)) [0..<50] @ [\<lparr>cells = [chainKey 50], mines = 1\<rparr>]"
proof -
  have "[0..<51] = [0..<50] @ [50]"
    using upt_Suc_append [of 0 50] by simp
  moreover have "rung 51 (\<lambda>i. 1) 50 = \<lparr>cells = [chainKey 50], mines = 1\<rparr>"
    using rung_last [of 50 "\<lambda>i. 1"] by simp
  ultimately show ?thesis
    by (simp add: ladder51_def ladder_constraints)
qed

lemma ladder51_first_pass:
  "updateConstraints (snd (buildConstraints ladder51)) (initialKnown\<lparr>changed := False\<rparr>) =
     (snd (buildConstraints ladder51), \<lparr>knownSafe = [], knownMines = [chainKey 50], changed = True\<rparr>)"
  "passes 1 ladder51 =
     (snd (buildConstraints ladder51), \<lparr>knownSafe = [], knownMines = [chainKey 50], changed = True\<rparr>)"
proof -
  let ?k0 = "initialKnown\<lparr>changed := False\<rparr>"
  let ?front = "map (rung 51 (\<lambda>i. 1)) [0..<50]"
  let ?cs = "?front @ [\<lparr>cells = [chainKey 50], mines = 1\<rparr>]"
  let ?k1 = "\<lparr>knownSafe = [], knownMines = [chainKey 50], changed = True\<rparr>"
  have "\<forall>c \<in> set ?front. quiet ?k0 c"
    by (auto simp: quiet_def initialKnown_def rung_pair)
  then have front: "updateConstraints ?front ?k0 = (?front, ?k0)"
    by (rule updateConstraints_quiet)
  have last: "updateConstraint \<lparr>cells = [chainKey 50], mines = 1\<rparr> ?k0 =
      (\<lparr>cells = [chainKey 50], mines = 1\<rparr>, ?k1)"
    by (simp add: updateConstraint_def initialKnown_def set_add_def)
  have narrowed: "updateConstraints ?cs ?k0 = (?cs, ?k1)"
    unfolding updateConstraints_append front by (simp add: last)
  have sizes: "cells (?cs ! i) = [] \<or> length (cells (?cs ! j)) \<le> length (cells (?cs ! i))"
    if "i < min (length ?cs) 50" "j < length ?cs" for i j
  proof -
    from that(1) have "length (cells (?cs ! i)) = 2"
      by (simp add: nth_append rung_pair)
    moreover have "length (cells (?cs ! j)) \<le> 2"
      using that(2) by (cases "j < 50") (simp_all add: nth_append rung_pair)
    ultimately show ?thesis by simp
  qed
  have analysis: "subsetAnalysis ?cs ?k1 = (?k1, [])"
    using sizes by (rule subsetAnalysis_same_size)
  show "updateConstraints (snd (buildConstraints ladder51)) ?k0 =
      (snd (buildConstraints ladder51), ?k1)"
    unfolding ladder51_constraints by (rule narrowed)
  have "propagationPass (?cs, ?k0) = (?cs, ?k1)"
    unfolding propagationPass_def fst_conv snd_conv narrowed Let_def prod.case analysis by simp
  then show "passes 1 ladder51 = (snd (buildConstraints ladder51), ?k1)"
    unfolding ladder51_constraints [symmetric]
    by (simp add: passes_def loopBody_def)
qed

text \<open>
  Claim C3, as stated, fails. On the ladder of 102 rows the first pass narrows the 51
  constraints to themselves and learns from the last one that (100,0) is a mine. After the
  narrowing the constraint at index 50 (the cell (100,0), one mine) is a strict subset of
  the one at index 49 (the cells (98,0) and (100,0), one mine), so (98,0) should be deduced
  safe; but the outer loop stops at index 49, and the pass ends with no cell known safe and
  nothing appended. On the 3 by 2 board the constraint at index 0 (the cell (1,0), two
  mines) is a strict subset of the one at index 1 (the cells (1,0) and (2,1), one mine);
  the mine difference 1 - 2 is negative, and nothing is derived from the pair either.
\<close>

theorem subset_pair_skipped_counterexample:
  "updateConstraints (fst (passes 0 ladder51)) ((snd (passes 0 ladder51))\<lparr>changed := False\<rparr>) =
     (fst (passes 1 ladder51), \<lparr>knownSafe = [], knownMines = [''100,0''], changed = True\<rparr>) \<and>
   length (fst (passes 1 ladder51)) = 51 \<and>
   fst (passes 1 ladder51) ! 50 = \<lparr>cells = [''100,0''], mines = 1\<rparr> \<and>
   fst (passes 1 ladder51) ! 49 = \<lparr>cells = [''98,0'', ''100,0''], mines = 1\<rparr> \<and>
   snd (passes 1 ladder51) = \<lparr>knownSafe = [], knownMines = [''100,0''], changed = True\<rparr> \<and>
   passes 0 board3x2neg =
     ([\<lparr>cells = [''1,0''], mines = 2\<rparr>, \<lparr>cells = [''1,0'', ''2,1''], mines = 1\<rparr>],
      \<lparr>knownSafe = [], knownMines = [], changed = True\<rparr>) \<and>
   passes 1 board3x2neg =
     ([\<lparr>cells = [''1,0''], mines = 2\<rparr>, \<lparr>cells = [''1,0'', ''2,1''], mines = 1\<rparr>],
      \<lparr>knownSafe = [], knownMines = [], changed = False\<rparr>)"
proof -
  have k50: "chainKey 50 = ''100,0''" and k49: "chainKey 49 = ''98,0''"
    by code_simp+
  have p0: "passes 0 ladder51 = (snd (buildConstraints ladder51), initialKnown)"
    by (simp add: passes_def)
  note p1 = ladder51_first_pass(2)
  have narrowed: "updateConstraints (fst (passes 0 ladder51))
        ((snd (passes 0 ladder51))\<lparr>changed := False\<rparr>) =
      (fst (passes 1 ladder51), \<lparr>knownSafe = [], knownMines = [''100,0''], changed = True\<rparr>)"
    unfolding p0 p1 fst_conv snd_conv ladder51_first_pass(1) k50 ..
  have len: "length (fst (passes 1 ladder51)) = 51"
    unfolding p1 fst_conv by (simp add: ladder51_constraints)
  have at50: "fst (passes 1 ladder51) ! 50 = \<lparr>cells = [''100,0''], mines = 1\<rparr>"
    unfolding p1 fst_conv by (simp add: ladder51_constraints nth_append k50)
  have at49: "fst (passes 1 ladder51) ! 49 = \<lparr>cells = [''98,0'', ''100,0''], mines = 1\<rparr>"
    unfolding p1 fst_conv by (simp add: ladder51_constraints nth_append rung_pair k49 k50)
  have known: "snd (passes 1 ladder51) =
      \<lparr>knownSafe = [], knownMines = [''100,0''], changed = True\<rparr>"
    unfolding p1 snd_conv k50 ..
  have small0: "passes 0 board3x2neg =
      ([\<lparr>cells = [''1,0''], mines = 2\<rparr>, \<lparr>cells = [''1,0'', ''2,1''], mines = 1\<rparr>],
       \<lparr>knownSafe = [], knownMines = [], changed = True\<rparr>)"
    by code_simp
  have small1: "passes 1 board3x2neg =
      ([\<lparr>cells = [''1,0''], mines = 2\<rparr>, \<lparr>cells = [''1,0'', ''2,1''], mines = 1\<rparr>],
       \<lparr>knownSafe = [], knownMines = [], changed = False\<rparr>)"
    by code_simp
  show ?thesis
    by (intro conjI narrowed len at50 at49 known small0 small1)
qed


section \<open>The union-find structure of partitionConstraints\<close>

lemma rootOf_bounds: "rootOf p x r \<Longrightarrow> x < length p \<and> r < length p \<and> p ! r = r"
  by (induction rule: rootOf.induct) auto

lemma rootOf_unique: "rootOf p x r \<Longrightarrow> rootOf p x r' \<Longrightarrow> r = r'"
proof (induction arbitrary: r' rule: rootOf.induct)
  case (atRoot x parent)
  from atRoot.prems atRoot.hyps show ?case
    by (cases rule: rootOf.cases) auto
next
  case (viaParent x parent r)
  from viaParent.prems viaParent.hyps(2) have "rootOf parent (parent ! x) r'"
    by (cases rule: rootOf.cases) auto
  then show ?case by (rule viaParent.IH)
qed

lemma rootOf_self: "rootOf p x r \<Longrightarrow> rootOf p r r"
  using rootOf_bounds [of p x r] by (auto intro: rootOf.atRoot)

lemma rootOf_compress:
  assumes "rootOf q y r'" and "rootOf q x r"
  shows "rootOf (q[x := r]) y r'"
  using assms
proof (induction rule: rootOf.induct)
  case (atRoot y parent)
  show ?case
  proof (cases "y = x")
    case True
    with atRoot have "r = x"
      using rootOf_unique [OF atRoot.prems, of x] by (auto intro: rootOf.atRoot)
    with True atRoot.hyps show ?thesis
      by (auto intro: rootOf.atRoot)
  next
    case False
    with atRoot.hyps show ?thesis
      by (auto intro: rootOf.atRoot)
  qed
next
  case (viaParent y parent r')
  have IH: "rootOf (parent[x := r]) (parent ! y) r'"
    using viaParent.IH viaParent.prems by simp
  show ?case
  proof (cases "y = x")
    case False
    with viaParent.hyps IH show ?thesis
      by (auto intro: rootOf.viaParent)
  next
    case True
    have "rootOf parent y r'"
      using viaParent.hyps by (auto intro: rootOf.viaParent)
    with True viaParent.prems have eq: "r' = r"
      using rootOf_unique by blast
    have rr: "parent ! r = r" "r < length parent"
      using rootOf_bounds [OF viaParent.prems] by auto
    with True viaParent.hyps have "r \<noteq> x" by auto
    with rr have "rootOf (parent[x := r]) r r"
      by (auto intro: rootOf.atRoot)
    with True viaParent.hyps \<open>r \<noteq> x\<close> eq show ?thesis
      by (auto intro: rootOf.viaParent)
  qed
qed

lemma uf_find_rootOf:
  assumes "rootOf p x r"
  shows "\<exists>p'. uf_find p x = Some (p', r) \<and> length p' = length p \<and>
           (\<forall>y r'. rootOf p y r' \<longrightarrow> rootOf p' y r')"
  using assms
proof (induction rule: rootOf.induct)
  case (atRoot x parent)
  then show ?case
    by (subst uf_find.simps) auto
next
  case (viaParent x parent r)
  then obtain p1 where p1: "uf_find parent (parent ! x) = Some (p1, r)"
    "length p1 = length parent" "\<forall>y r'. rootOf parent y r' \<longrightarrow> rootOf p1 y r'"
    by blast
  have "rootOf parent x r"
    using viaParent.hyps by (auto intro: rootOf.viaParent)
  with p1(3) have xr: "rootOf p1 x r" by blast
  have "\<forall>y r'. rootOf parent y r' \<longrightarrow> rootOf (p1[x := r]) y r'"
    using p1(3) xr by (auto intro: rootOf_compress)
  moreover have "uf_find parent x = Some (p1[x := r], r)"
    using viaParent.hyps(1,2) p1(1) by (subst uf_find.simps) simp
  ultimately show ?case
    using p1(2) by auto
qed

lemma uf_inv_preserved:
  assumes "uf_inv p" and "length p' = length p" and "\<forall>y r'. rootOf p y r' \<longrightarrow> rootOf p' y r'"
  shows "uf_inv p'" and "rootOf p' y r \<Longrightarrow> rootOf p y r"
proof -
  show "uf_inv p'"
    using assms unfolding uf_inv_def by metis
  assume a: "rootOf p' y r"
  then have "y < length p" using rootOf_bounds [OF a] assms(2) by simp
  with assms(1) obtain r0 where r0: "rootOf p y r0" unfolding uf_inv_def by blast
  with assms(3) have "rootOf p' y r0" by blast
  with a have "r0 = r" using rootOf_unique by blast
  with r0 show "rootOf p y r" by simp
qed

lemma rootOf_link:
  assumes "rootOf p y r" and "px \<noteq> py" and "p ! px = px" and "p ! py = py"
    and "px < length p" and "py < length p"
  shows "rootOf (p[px := py]) y (if r = px then py else r)"
  using assms
proof (induction rule: rootOf.induct)
  case (atRoot y parent)
  show ?case
  proof (cases "y = px")
    case True
    have "rootOf (parent[px := py]) py py"
      using atRoot.prems by (auto intro: rootOf.atRoot)
    with True atRoot.prems show ?thesis
      by (auto intro: rootOf.viaParent)
  next
    case False
    with atRoot.hyps show ?thesis
      by (auto intro: rootOf.atRoot)
  qed
next
  case (viaParent y parent r)
  have "y \<noteq> px" using viaParent.hyps(2) viaParent.prems(2) by auto
  with viaParent show ?case
    by (auto intro: rootOf.viaParent)
qed


lemma ufStepI:
  assumes "length p' = length p" and "uf_inv p'"
    and "\<And>a b. sameRoot p a b \<Longrightarrow> sameRoot p' a b"
    and "\<And>x y. (x, y) \<in> E \<Longrightarrow> sameRoot p' x y"
    and "\<And>C. sym C \<Longrightarrow> trans C \<Longrightarrow> E \<subseteq> C \<Longrightarrow> uf_rel p \<subseteq> C \<Longrightarrow> uf_rel p' \<subseteq> C"
  shows "ufStep E p p'"
  unfolding ufStep_def
proof (intro conjI allI impI ballI)
  show "length p' = length p" "uf_inv p'" by fact+
  show "sameRoot p' a b" if "sameRoot p a b" for a b using that by (rule assms(3))
  show "case xy of (x, y) \<Rightarrow> sameRoot p' x y" if "xy \<in> E" for xy
    using that assms(4) [of "fst xy" "snd xy"] by (simp add: split_beta)
  show "uf_rel p' \<subseteq> C" if "sym C \<and> trans C \<and> E \<subseteq> C \<and> uf_rel p \<subseteq> C" for C
    using that assms(5) [of C] by simp
qed

lemma ufStepD:
  assumes "ufStep E p p'"
  shows "length p' = length p" and "uf_inv p'"
    and "\<And>a b. sameRoot p a b \<Longrightarrow> sameRoot p' a b"
    and "\<And>x y. (x, y) \<in> E \<Longrightarrow> sameRoot p' x y"
    and "\<And>C. sym C \<Longrightarrow> trans C \<Longrightarrow> E \<subseteq> C \<Longrightarrow> uf_rel p \<subseteq> C \<Longrightarrow> uf_rel p' \<subseteq> C"
proof -
  show "length p' = length p" "uf_inv p'"
    using assms by (simp_all add: ufStep_def)
  show "sameRoot p' a b" if "sameRoot p a b" for a b
    using assms that by (simp add: ufStep_def)
  show "sameRoot p' x y" if "(x, y) \<in> E" for x y
  proof -
    from assms have "\<forall>xy \<in> E. case xy of (x, y) \<Rightarrow> sameRoot p' x y"
      by (simp add: ufStep_def)
    from this that have "case (x, y) of (x, y) \<Rightarrow> sameRoot p' x y" by (rule bspec)
    then show ?thesis by simp
  qed
  show "uf_rel p' \<subseteq> C" if "sym C" "trans C" "E \<subseteq> C" "uf_rel p \<subseteq> C" for C
  proof -
    from assms have "\<forall>C. sym C \<and> trans C \<and> E \<subseteq> C \<and> uf_rel p \<subseteq> C \<longrightarrow> uf_rel p' \<subseteq> C"
      by (simp add: ufStep_def)
    with that show ?thesis by blast
  qed
qed

lemma ufStep_refl: "uf_inv p \<Longrightarrow> ufStep {} p p"
  by (rule ufStepI) simp_all

lemma ufStep_trans:
  assumes "ufStep E1 p p'" and "ufStep E2 p' p''"
  shows "ufStep (E1 \<union> E2) p p''"
proof (rule ufStepI)
  note s1 = ufStepD [OF assms(1)] and s2 = ufStepD [OF assms(2)]
  show "length p'' = length p" "uf_inv p''"
    using s1(1) s2(1,2) by simp_all
  show "sameRoot p'' a b" if "sameRoot p a b" for a b
    using that by (intro s2(3) s1(3))
  show "sameRoot p'' x y" if "(x, y) \<in> E1 \<union> E2" for x y
  proof (cases "(x, y) \<in> E1")
    case True
    then show ?thesis by (intro s2(3) s1(4))
  next
    case False
    with that show ?thesis by (intro s2(4)) simp
  qed
  show "uf_rel p'' \<subseteq> C" if "sym C" "trans C" "E1 \<union> E2 \<subseteq> C" "uf_rel p \<subseteq> C" for C
  proof -
    from that have "uf_rel p' \<subseteq> C" by (intro s1(5)) simp_all
    with that show ?thesis by (intro s2(5)) simp_all
  qed
qed

lemma uf_find_step:
  assumes "uf_inv p" and "x < length p"
  shows "\<exists>p' r. uf_find p x = Some (p', r) \<and> rootOf p x r \<and> length p' = length p \<and>
           uf_inv p' \<and> (\<forall>y s. rootOf p' y s \<longleftrightarrow> rootOf p y s)"
proof -
  from assms obtain r where r: "rootOf p x r"
    unfolding uf_inv_def by blast
  from uf_find_rootOf [OF r] obtain p' where p':
    "uf_find p x = Some (p', r)" "length p' = length p" "\<forall>y r'. rootOf p y r' \<longrightarrow> rootOf p' y r'"
    by blast
  from uf_inv_preserved [OF assms(1) p'(2,3)] p' r show ?thesis
    by blast
qed

lemma uf_union_step:
  assumes "uf_inv p" and "x < length p" and "y < length p"
  shows "\<exists>p'. uf_union p x y = Some p' \<and> ufStep {(x, y)} p p'"
proof -
  from uf_find_step [OF assms(1,2)] obtain p1 px where p1:
    "uf_find p x = Some (p1, px)" "rootOf p x px" "length p1 = length p" "uf_inv p1"
    "\<forall>y s. rootOf p1 y s \<longleftrightarrow> rootOf p y s"
    by blast
  from assms(3) p1(3) have "y < length p1" by simp
  from uf_find_step [OF p1(4) this] obtain p2 py where p2:
    "uf_find p1 y = Some (p2, py)" "rootOf p1 y py" "length p2 = length p1" "uf_inv p2"
    "\<forall>z s. rootOf p2 z s \<longleftrightarrow> rootOf p1 z s"
    by blast
  have roots: "rootOf p2 z s \<longleftrightarrow> rootOf p z s" for z s
    using p1(5) p2(5) by simp
  have same2: "sameRoot p2 a b \<longleftrightarrow> sameRoot p a b" for a b
    by (simp add: sameRoot_def roots)
  have xr: "rootOf p2 x px" and yr: "rootOf p2 y py"
    using p1(2) p2(2) p1(5) roots by auto
  define p' where "p' = (if px \<noteq> py then p2[px := py] else p2)"
  have res: "uf_union p x y = Some p'"
    by (simp add: uf_union_def p1(1) p2(1) p'_def)
  have len: "length p' = length p"
    by (simp add: p'_def p2(3) p1(3))
  show ?thesis
  proof (cases "px = py")
    case True
    then have eq: "p' = p2" by (simp add: p'_def)
    have "sameRoot p2 x y"
      using xr yr True by (auto simp: sameRoot_def)
    then have "ufStep {(x, y)} p p'"
      using p2(4) len eq by (intro ufStepI) (simp_all add: same2 uf_rel_def)
    with res show ?thesis by blast
  next
    case False
    then have eq: "p' = p2[px := py]" by (simp add: p'_def)
    have bx: "p2 ! px = px" "px < length p2" and by': "p2 ! py = py" "py < length p2"
      using rootOf_bounds [OF xr] rootOf_bounds [OF yr] by auto
    have link: "rootOf p' z (if s = px then py else s)" if "rootOf p2 z s" for z s
      unfolding eq by (rule rootOf_link [OF that False bx(1) by'(1) bx(2) by'(2)])
    have inv: "uf_inv p'"
      unfolding uf_inv_def
    proof (intro allI impI)
      fix z assume "z < length p'"
      then have "z < length p2" by (simp add: eq)
      with p2(4) obtain s where "rootOf p2 z s" unfolding uf_inv_def by blast
      from link [OF this] show "\<exists>r. rootOf p' z r" by blast
    qed
    have mono: "sameRoot p' a b" if "sameRoot p a b" for a b
    proof -
      from that obtain s where "rootOf p2 a s" "rootOf p2 b s"
        by (auto simp: sameRoot_def roots)
      then show ?thesis
        using link by (auto simp: sameRoot_def)
    qed
    have xy: "sameRoot p' x y"
      using link [OF xr] link [OF yr] False by (auto simp: sameRoot_def)
    have closed: "uf_rel p' \<subseteq> C" if C: "sym C" "trans C" "{(x, y)} \<subseteq> C" "uf_rel p \<subseteq> C" for C
    proof
      fix ab assume "ab \<in> uf_rel p'"
      then obtain a b s where ab: "ab = (a, b)" "rootOf p' a s" "rootOf p' b s"
        by (auto simp: uf_rel_def sameRoot_def)
      have "a < length p2" "b < length p2"
        using rootOf_bounds [OF ab(2)] rootOf_bounds [OF ab(3)] by (simp_all add: eq)
      with p2(4) obtain ra rb where ra: "rootOf p2 a ra" and rb: "rootOf p2 b rb"
        unfolding uf_inv_def by blast
      from link [OF ra] ab(2) have sa: "s = (if ra = px then py else ra)"
        using rootOf_unique by blast
      from link [OF rb] ab(3) have sb: "s = (if rb = px then py else rb)"
        using rootOf_unique by blast
      have inC: "(u, v) \<in> C" if "rootOf p2 u t" "rootOf p2 v t" for u v t
        using that C by (auto simp: uf_rel_def sameRoot_def roots)
      have xyC: "(x, y) \<in> C" and yxC: "(y, x) \<in> C"
        using C by (auto dest: symD)
      consider "ra = rb" | "ra = px" "rb = py" "ra \<noteq> rb" | "ra = py" "rb = px" "ra \<noteq> rb"
        using sa sb by (auto split: if_splits)
      then have "(a, b) \<in> C"
      proof cases
        case 1
        with ra rb show ?thesis by (auto intro: inC)
      next
        case 2
        have "(a, x) \<in> C" using ra xr 2 by (auto intro: inC)
        moreover have "(y, b) \<in> C" using rb yr 2 by (auto intro: inC)
        ultimately show ?thesis using xyC C by (meson transD)
      next
        case 3
        have "(a, y) \<in> C" using ra yr 3 by (auto intro: inC)
        moreover have "(x, b) \<in> C" using rb xr 3 by (auto intro: inC)
        ultimately show ?thesis using yxC C by (meson transD)
      qed
      with ab(1) show "ab \<in> C" by simp
    qed
    have "ufStep {(x, y)} p p'"
      using len inv mono xy closed by (intro ufStepI) simp_all
    with res show ?thesis by blast
  qed
qed


lemma unionIndices_step:
  assumes "uf_inv p" and "first < length p" and "\<forall>i \<in> set others. i < length p"
  shows "\<exists>p'. unionIndices first others p = Some p' \<and> ufStep ({first} \<times> set others) p p'"
  using assms
proof (induction others arbitrary: p)
  case Nil
  then show ?case by (simp add: ufStep_refl)
next
  case (Cons idx others)
  from Cons.prems have "idx < length p" by simp
  from uf_union_step [OF Cons.prems(1,2) this] obtain p1 where p1:
    "uf_union p first idx = Some p1" "ufStep {(first, idx)} p p1"
    by blast
  note d = ufStepD [OF p1(2)]
  from Cons.prems d(1) have "first < length p1" "\<forall>i \<in> set others. i < length p1"
    by simp_all
  from Cons.IH [OF d(2) this] obtain p' where p':
    "unionIndices first others p1 = Some p'" "ufStep ({first} \<times> set others) p1 p'"
    by blast
  have "{(first, idx)} \<union> {first} \<times> set others = {first} \<times> set (idx # others)"
    by auto
  with ufStep_trans [OF p1(2) p'(2)] have "ufStep ({first} \<times> set (idx # others)) p p'"
    by simp
  with p1(1) p'(1) show ?case by simp
qed

lemma unionAll_step:
  assumes "uf_inv p" and "\<forall>l \<in> set ls. \<forall>i \<in> set l. i < length p"
  shows "\<exists>p'. unionAll ls p = Some p' \<and> ufStep (\<Union>l \<in> set ls. starEdges l) p p'"
  using assms
proof (induction ls arbitrary: p)
  case Nil
  then show ?case by (simp add: ufStep_refl)
next
  case (Cons l ls)
  show ?case
  proof (cases l)
    case Nil
    with Cons show ?thesis by (simp add: starEdges_def)
  next
    case (Cons first others)
    with Cons.prems have "first < length p" "\<forall>i \<in> set others. i < length p"
      by simp_all
    from unionIndices_step [OF Cons.prems(1) this] obtain p1 where p1:
      "unionIndices first others p = Some p1" "ufStep ({first} \<times> set others) p p1"
      by blast
    note d = ufStepD [OF p1(2)]
    from Cons.prems(2) d(1) have "\<forall>l \<in> set ls. \<forall>i \<in> set l. i < length p1"
      by simp
    from Cons.IH [OF d(2) this] obtain p' where p':
      "unionAll ls p1 = Some p'" "ufStep (\<Union>l \<in> set ls. starEdges l) p1 p'"
      by blast
    from ufStep_trans [OF p1(2) p'(2)] Cons
    have "ufStep (\<Union>l \<in> set (l # ls). starEdges l) p p'"
      by (simp add: starEdges_def)
    with p1(1) p'(1) Cons show ?thesis by simp
  qed
qed

lemma rootOf_init: "rootOf [0..<n] x r \<longleftrightarrow> x < n \<and> r = x"
proof
  assume "rootOf [0..<n] x r"
  then show "x < n \<and> r = x"
    by (cases rule: rootOf.cases) auto
next
  assume "x < n \<and> r = x"
  then show "rootOf [0..<n] x r" by (auto intro: rootOf.atRoot)
qed

lemma uf_inv_init: "uf_inv [0..<n]"
  unfolding uf_inv_def by (auto simp: rootOf_init)


section \<open>The cell map and the groups\<close>

lemma cellIdxs_addCellIndex:
  "cellIdxs (addCellIndex idx c m) cell =
     (if cell = c then cellIdxs m cell @ [idx] else cellIdxs m cell)"
  by (auto simp: cellIdxs_def addCellIndex_def Let_def AList.map_of_map_entry AList.update_conv'
      split: option.splits)

lemma distinct_addCellIndex:
  "distinct (map fst m) \<Longrightarrow> distinct (map fst (addCellIndex idx c m))"
  by (simp add: addCellIndex_def Let_def AList.distinct_map_entry AList.distinct_update)

lemma cellIdxs_fold_add:
  "set (cellIdxs (fold (addCellIndex idx) keys m) cell) =
     set (cellIdxs m cell) \<union> (if cell \<in> set keys then {idx} else {})"
  by (induction keys arbitrary: m) (auto simp: cellIdxs_addCellIndex)

lemma distinct_fold_add:
  "distinct (map fst m) \<Longrightarrow> distinct (map fst (fold (addCellIndex idx) keys m))"
  by (induction keys arbitrary: m) (auto simp: distinct_addCellIndex)

lemma cellIdxs_enumerate:
  "set (cellIdxs (fold (\<lambda>(idx, constraint) m. fold (addCellIndex idx) (cells constraint) m)
          (enumerate k cs) m) cell) =
     set (cellIdxs m cell) \<union> {k + i | i. i < length cs \<and> cell \<in> set (cells (cs ! i))}"
proof (induction cs arbitrary: k m)
  case Nil
  show ?case by simp
next
  case (Cons c cs)
  have "{k + i | i. i < length (c # cs) \<and> cell \<in> set (cells ((c # cs) ! i))} =
      (if cell \<in> set (cells c) then {k} else {}) \<union>
      {Suc k + i | i. i < length cs \<and> cell \<in> set (cells (cs ! i))}"
    (is "?L = ?R")
  proof (intro set_eqI iffI)
    fix x assume "x \<in> ?L"
    then obtain i where i: "x = k + i" "i < length (c # cs)" "cell \<in> set (cells ((c # cs) ! i))"
      by blast
    then show "x \<in> ?R"
      by (cases i) auto
  next
    fix x assume "x \<in> ?R"
    then consider "cell \<in> set (cells c)" "x = k"
      | i where "x = Suc k + i" "i < length cs" "cell \<in> set (cells (cs ! i))"
      by (auto split: if_splits)
    then show "x \<in> ?L"
    proof cases
      case 1
      then have "x = k + 0 \<and> 0 < length (c # cs) \<and> cell \<in> set (cells ((c # cs) ! 0))"
        by simp
      then show ?thesis by blast
    next
      case 2
      then have "x = k + Suc i \<and> Suc i < length (c # cs) \<and> cell \<in> set (cells ((c # cs) ! Suc i))"
        by simp
      then show ?thesis by blast
    qed
  qed
  then show ?case
    by (simp add: Cons.IH cellIdxs_fold_add Un_assoc)
qed

lemma distinct_enumerate_fold:
  "distinct (map fst m) \<Longrightarrow>
   distinct (map fst (fold (\<lambda>(idx, constraint) m. fold (addCellIndex idx) (cells constraint) m)
      (enumerate k cs) m))"
  by (induction cs arbitrary: k m) (auto simp: distinct_fold_add)

lemma cellIdxs_buildCellMap:
  "set (cellIdxs (buildCellMap cs) cell) = {i. i < length cs \<and> cell \<in> set (cells (cs ! i))}"
  using cellIdxs_enumerate [of 0 cs "[]" cell]
  by (simp add: buildCellMap_def cellIdxs_def)

lemma distinct_buildCellMap: "distinct (map fst (buildCellMap cs))"
  unfolding buildCellMap_def by (rule distinct_enumerate_fold) simp

lemma buildCellMap_entries:
  assumes "l \<in> set (map snd (buildCellMap cs))"
  shows "\<exists>cell. set l = {i. i < length cs \<and> cell \<in> set (cells (cs ! i))}"
proof -
  from assms obtain cell where "(cell, l) \<in> set (buildCellMap cs)"
    by auto
  with distinct_buildCellMap have "map_of (buildCellMap cs) cell = Some l"
    by simp
  then have "cellIdxs (buildCellMap cs) cell = l"
    by (simp add: cellIdxs_def)
  with cellIdxs_buildCellMap [of cs cell] show ?thesis
    by blast
qed

lemma buildCellMap_covers:
  assumes "i < length cs" and "cell \<in> set (cells (cs ! i))"
  shows "\<exists>l \<in> set (map snd (buildCellMap cs)). i \<in> set l"
proof -
  from assms have i: "i \<in> set (cellIdxs (buildCellMap cs) cell)"
    by (simp add: cellIdxs_buildCellMap)
  then obtain l where "map_of (buildCellMap cs) cell = Some l" "i \<in> set l"
    by (cases "map_of (buildCellMap cs) cell") (auto simp: cellIdxs_def)
  then show ?thesis
    by (force dest: map_of_SomeD)
qed


lemma groupByRoot_pure:
  assumes "uf_inv p" and "\<forall>ix \<in> set xs. fst ix < length p" and "\<forall>i < length p. rootOf p i (rt i)"
  shows "groupByRoot xs p gs = Some (groupPure rt xs gs)"
  using assms
proof (induction xs arbitrary: p gs)
  case Nil
  show ?case by (simp add: groupPure_def)
next
  case (Cons ix xs)
  obtain idx x where ix: "ix = (idx, x)" by (cases ix)
  with Cons.prems have idx: "idx < length p" by simp
  from uf_find_step [OF Cons.prems(1) idx] obtain p' r where p':
    "uf_find p idx = Some (p', r)" "rootOf p idx r" "length p' = length p" "uf_inv p'"
    "\<forall>y s. rootOf p' y s \<longleftrightarrow> rootOf p y s"
    by blast
  from Cons.prems(3) idx p'(2) have r: "r = rt idx"
    using rootOf_unique by blast
  have "groupByRoot xs p' (pushGroup r x gs) = Some (groupPure rt xs (pushGroup r x gs))"
    using Cons.prems p'(3,4,5) by (intro Cons.IH) simp_all
  with p'(1) ix r show ?case
    by (simp add: groupPure_def)
qed

lemma grpOf_pushGroup:
  "grpOf (pushGroup r x gs) key = (if key = r then grpOf gs key @ [x] else grpOf gs key)"
  by (auto simp: grpOf_def pushGroup_def Let_def AList.map_of_map_entry AList.update_conv'
      split: option.splits)

lemma distinct_pushGroup:
  "distinct (map fst gs) \<Longrightarrow> distinct (map fst (pushGroup r x gs))"
  by (simp add: pushGroup_def Let_def AList.distinct_map_entry AList.distinct_update)

lemma pushGroup_new:
  assumes "map_of gs r = None"
  shows "pushGroup r x gs = gs @ [(r, [x])]"
proof -
  from assms have notin: "r \<notin> fst ` set gs"
    by (simp add: map_of_eq_None_iff)
  then have "AList.update r [] gs = gs @ [(r, [])]"
    by (induction gs) auto
  moreover from notin have "AList.map_entry r (\<lambda>g. g @ [x]) (gs @ [(r, [])]) = gs @ [(r, [x])]"
    by (induction gs) auto
  ultimately show ?thesis
    using assms by (simp add: pushGroup_def)
qed

lemma pushGroup_old:
  assumes "map_of gs r = Some l"
  shows "pushGroup r x gs = AList.map_entry r (\<lambda>g. g @ [x]) gs" and "r \<in> fst ` set gs"
proof -
  show "pushGroup r x gs = AList.map_entry r (\<lambda>g. g @ [x]) gs"
    using assms by (simp add: pushGroup_def)
  from assms have "(r, l) \<in> set gs" by (rule map_of_SomeD)
  then show "r \<in> fst ` set gs" by force
qed

lemma keys_pushGroup: "fst ` set (pushGroup r x gs) = insert r (fst ` set gs)"
proof (cases "map_of gs r")
  case None
  then show ?thesis by (auto simp: pushGroup_new)
next
  case (Some l)
  from pushGroup_old [OF this] show ?thesis
    by (auto simp: AList.dom_map_entry)
qed

lemma mset_map_entry_append:
  "k \<in> fst ` set gs \<Longrightarrow>
   mset (concat (map snd (AList.map_entry k (\<lambda>g. g @ [x]) gs))) =
     mset (concat (map snd gs)) + {#x#}"
  by (induction gs) auto

lemma mset_pushGroup:
  "mset (concat (map snd (pushGroup r x gs))) = mset (concat (map snd gs)) + {#x#}"
proof (cases "map_of gs r")
  case None
  then show ?thesis by (simp add: pushGroup_new)
next
  case (Some l)
  from pushGroup_old [OF this] show ?thesis
    by (simp add: mset_map_entry_append)
qed

lemma values_map_entry:
  "snd ` set (AList.map_entry k f gs) \<subseteq> snd ` set gs \<union> f ` snd ` set gs"
  by (induction gs) auto

lemma nonempty_pushGroup:
  assumes "[] \<notin> snd ` set gs"
  shows "[] \<notin> snd ` set (pushGroup r x gs)"
proof (cases "map_of gs r")
  case None
  with assms show ?thesis by (auto simp: pushGroup_new)
next
  case (Some l)
  from pushGroup_old(1) [OF this] assms values_map_entry [of r "\<lambda>g. g @ [x]" gs]
  show ?thesis by auto
qed


lemma grpOf_groupPure:
  "grpOf (groupPure rt xs gs) key = grpOf gs key @ map snd (filter (\<lambda>ix. rt (fst ix) = key) xs)"
  unfolding groupPure_def
  by (induction xs arbitrary: gs) (auto simp: grpOf_pushGroup)

lemma distinct_groupPure:
  "distinct (map fst gs) \<Longrightarrow> distinct (map fst (groupPure rt xs gs))"
  unfolding groupPure_def
  by (induction xs arbitrary: gs) (auto simp: distinct_pushGroup)

lemma mset_groupPure:
  "mset (concat (map snd (groupPure rt xs gs))) = mset (concat (map snd gs)) + mset (map snd xs)"
  unfolding groupPure_def
  by (induction xs arbitrary: gs) (auto simp: mset_pushGroup)

lemma nonempty_groupPure:
  "[] \<notin> snd ` set gs \<Longrightarrow> [] \<notin> snd ` set (groupPure rt xs gs)"
  unfolding groupPure_def
proof (induction xs arbitrary: gs)
  case Nil
  then show ?case by simp
next
  case (Cons ix xs)
  from Cons.prems have "[] \<notin> snd ` set (pushGroup (rt (fst ix)) (snd ix) gs)"
    by (rule nonempty_pushGroup)
  from Cons.IH [OF this] show ?case
    by (simp add: split_beta)
qed

text \<open>Every group is the list of the elements of one root, in their order.\<close>

lemma groupPure_groups:
  assumes "g \<in> set (map snd (groupPure rt xs []))"
  shows "\<exists>key. g = map snd (filter (\<lambda>ix. rt (fst ix) = key) xs)"
proof -
  from assms obtain key where "(key, g) \<in> set (groupPure rt xs [])"
    by auto
  moreover have "distinct (map fst (groupPure rt xs []))"
    by (rule distinct_groupPure) simp
  ultimately have "map_of (groupPure rt xs []) key = Some g"
    by simp
  then have "grpOf (groupPure rt xs []) key = g"
    by (simp add: grpOf_def)
  moreover have "grpOf [] key = ([] :: 'a list)"
    by (simp add: grpOf_def)
  ultimately have "g = map snd (filter (\<lambda>ix. rt (fst ix) = key) xs)"
    using grpOf_groupPure [of rt xs "[]" key] by simp
  then show ?thesis ..
qed

lemma map_of_mapGroups: "map_of (mapGroups f gs) r = map_option (map f) (map_of gs r)"
  by (induction gs) (auto simp: mapGroups_def)

lemma map_entry_mapGroups:
  "AList.map_entry r (\<lambda>g. g @ [f x]) (mapGroups f gs) =
     mapGroups f (AList.map_entry r (\<lambda>g. g @ [x]) gs)"
  by (induction gs) (auto simp: mapGroups_def)

lemma pushGroup_mapGroups: "pushGroup r (f x) (mapGroups f gs) = mapGroups f (pushGroup r x gs)"
proof (cases "map_of gs r")
  case None
  then have "map_of (mapGroups f gs) r = None"
    by (simp add: map_of_mapGroups)
  with None show ?thesis
    by (simp add: pushGroup_new) (simp add: mapGroups_def)
next
  case (Some l)
  then have "map_of (mapGroups f gs) r = Some (map f l)"
    by (simp add: map_of_mapGroups)
  from pushGroup_old(1) [OF this] pushGroup_old(1) [OF Some] show ?thesis
    by (simp add: map_entry_mapGroups)
qed

lemma groupPure_mapGroups:
  "groupPure rt (map (\<lambda>ix. (fst ix, f (snd ix))) xs) (mapGroups f gs) =
     mapGroups f (groupPure rt xs gs)"
  unfolding groupPure_def
  by (induction xs arbitrary: gs) (auto simp: pushGroup_mapGroups)

lemma enumerate_as_map:
  "enumerate 0 cs = map (\<lambda>ix. (fst ix, cs ! snd ix)) (map (\<lambda>i. (i, i)) [0..<length cs])"
  by (rule nth_equalityI) (simp_all add: nth_enumerate_eq)

lemma groups_as_indexGroups:
  "map snd (groupPure rt (enumerate 0 cs) []) =
     map (map (\<lambda>i. cs ! i)) (indexGroups rt (length cs))"
proof -
  have "groupPure rt (enumerate 0 cs) [] =
      mapGroups (\<lambda>i. cs ! i) (groupPure rt (map (\<lambda>i. (i, i)) [0..<length cs]) [])"
    using groupPure_mapGroups [of rt "\<lambda>i. cs ! i" "map (\<lambda>i. (i, i)) [0..<length cs]" "[]"]
    by (simp add: enumerate_as_map mapGroups_def)
  then show ?thesis
    by (simp add: indexGroups_def mapGroups_def comp_def)
qed

lemma indexGroups_partition:
  "distinct (concat (indexGroups rt n))" "set (concat (indexGroups rt n)) = {..<n}"
  "[] \<notin> set (indexGroups rt n)"
proof -
  have m: "mset (concat (indexGroups rt n)) = mset [0..<n]"
    by (simp add: indexGroups_def mset_groupPure comp_def)
  show "distinct (concat (indexGroups rt n))"
    using mset_eq_imp_distinct_iff [OF m] by simp
  show "set (concat (indexGroups rt n)) = {..<n}"
    using mset_eq_setD [OF m] by auto
  have "[] \<notin> snd ` set (groupPure rt (map (\<lambda>i. (i, i)) [0..<n]) [])"
    by (rule nonempty_groupPure) simp
  then show "[] \<notin> set (indexGroups rt n)"
    by (simp add: indexGroups_def)
qed

lemma indexGroups_classes:
  assumes "g \<in> set (indexGroups rt n)" and "i \<in> set g"
  shows "set g = {j. j < n \<and> rt j = rt i}"
proof -
  from assms(1) obtain key where
    "g = map snd (filter (\<lambda>ix. rt (fst ix) = key) (map (\<lambda>i. (i, i)) [0..<n]))"
    unfolding indexGroups_def using groupPure_groups by blast
  then have g: "set g = {j. j < n \<and> rt j = key}"
    by (auto simp: image_iff)
  with assms(2) have "rt i = key" by simp
  with g show ?thesis by simp
qed


section \<open>partitionConstraints returns the connected components\<close>

lemma sameRoot_sym: "sameRoot p a b \<Longrightarrow> sameRoot p b a"
  by (auto simp: sameRoot_def)

lemma sameRoot_trans: "sameRoot p a b \<Longrightarrow> sameRoot p b c \<Longrightarrow> sameRoot p a c"
  unfolding sameRoot_def using rootOf_unique by blast

lemma sameRoot_refl: "uf_inv p \<Longrightarrow> a < length p \<Longrightarrow> sameRoot p a a"
  by (auto simp: sameRoot_def uf_inv_def)

lemma starEdges_united:
  assumes "ufStep (\<Union>l \<in> set ls. starEdges l) p0 p" and "l \<in> set ls"
    and "i \<in> set l" and "j \<in> set l" and "\<forall>x \<in> set l. x < length p0"
  shows "sameRoot p i j"
proof -
  note d = ufStepD [OF assms(1)]
  from assms(3) obtain first others where l: "l = first # others"
    by (cases l) auto
  have star: "sameRoot p first x" if "x \<in> set l" for x
  proof (cases "x = first")
    case True
    with assms(5) l d(1,2) show ?thesis
      by (auto intro: sameRoot_refl)
  next
    case False
    with that l have "(first, x) \<in> starEdges l"
      by (auto simp: starEdges_def)
    with assms(2) have "(first, x) \<in> (\<Union>l \<in> set ls. starEdges l)"
      by blast
    then show ?thesis by (rule d(4))
  qed
  from star [OF assms(3)] star [OF assms(4)] show ?thesis
    by (blast intro: sameRoot_sym sameRoot_trans)
qed

lemma partition_roots:
  "\<exists>rt. partitionConstraints cs = Some (map (map (\<lambda>i. cs ! i)) (indexGroups rt (length cs))) \<and>
     (\<forall>i < length cs. \<forall>j < length cs. rt i = rt j \<longleftrightarrow> (i, j) \<in> (shareRel cs)\<^sup>*)"
proof (cases "cs = []")
  case True
  then show ?thesis
    by (simp add: partitionConstraints_def indexGroups_def groupPure_def)
next
  case False
  define n where "n = length cs"
  define ls where "ls = map snd (buildCellMap cs)"
  define E where "E = (\<Union>l \<in> set ls. starEdges l)"
  have entries: "\<exists>cell. set l = {i. i < n \<and> cell \<in> set (cells (cs ! i))}" if "l \<in> set ls" for l
    using that buildCellMap_entries unfolding ls_def n_def by blast
  have bounds: "\<forall>l \<in> set ls. \<forall>i \<in> set l. i < length [0..<n]"
    using entries by fastforce
  from unionAll_step [OF uf_inv_init bounds] obtain p where p:
    "unionAll ls [0..<n] = Some p" "ufStep E [0..<n] p"
    unfolding E_def by blast
  note d = ufStepD [OF p(2)]
  have len: "length p = n" using d(1) by simp
  from d(2) have "\<forall>i. \<exists>r. i < length p \<longrightarrow> rootOf p i r"
    unfolding uf_inv_def by blast
  then obtain rt where rt: "\<forall>i < length p. rootOf p i (rt i)"
    by metis
  have same_rt: "sameRoot p i j \<longleftrightarrow> rt i = rt j" if "i < n" "j < n" for i j
    using that rt len rootOf_unique unfolding sameRoot_def by (metis (full_types))
  have "groupByRoot (enumerate 0 cs) p [] = Some (groupPure rt (enumerate 0 cs) [])"
  proof (rule groupByRoot_pure [OF d(2) _ rt])
    show "\<forall>ix \<in> set (enumerate 0 cs). fst ix < length p"
      by (auto simp: in_set_enumerate_eq len n_def)
  qed
  with p(1) False have res: "partitionConstraints cs =
      Some (map (map (\<lambda>i. cs ! i)) (indexGroups rt (length cs)))"
    by (simp add: partitionConstraints_def ls_def n_def groups_as_indexGroups)
  have sound: "rt i = rt j" if "(i, j) \<in> (shareRel cs)\<^sup>*" "i < n" for i j
    using that
  proof (induction rule: rtrancl_induct)
    case base
    show ?case by simp
  next
    case (step y z)
    from step.hyps(2) obtain cell where yz: "y < n" "z < n"
      "cell \<in> set (cells (cs ! y))" "cell \<in> set (cells (cs ! z))"
      by (auto simp: shareRel_def n_def)
    from buildCellMap_covers [of y cs cell] yz obtain l where l: "l \<in> set ls" "y \<in> set l"
      unfolding ls_def n_def by auto
    from entries [OF l(1)] obtain cell' where c': "set l = {i. i < n \<and> cell' \<in> set (cells (cs ! i))}"
      by blast
    have "cell \<in> set (cells (cs ! y))" by fact
    have "\<exists>l \<in> set ls. y \<in> set l \<and> z \<in> set l"
    proof -
      have "y \<in> set (cellIdxs (buildCellMap cs) cell)" "z \<in> set (cellIdxs (buildCellMap cs) cell)"
        using yz by (simp_all add: cellIdxs_buildCellMap n_def)
      moreover then obtain l0 where "map_of (buildCellMap cs) cell = Some l0"
        by (cases "map_of (buildCellMap cs) cell") (auto simp: cellIdxs_def)
      ultimately show ?thesis
        unfolding ls_def by (force simp: cellIdxs_def dest: map_of_SomeD)
    qed
    then obtain l1 where l1: "l1 \<in> set ls" "y \<in> set l1" "z \<in> set l1"
      by blast
    have "sameRoot p y z"
      using p(2) l1 bounds unfolding E_def by (intro starEdges_united [where l = l1 and ls = ls]) auto
    with same_rt yz have "rt y = rt z" by simp
    with step show ?case by simp
  qed
  define C where "C = {(a, b). a < n \<and> b < n \<and> (a, b) \<in> (shareRel cs)\<^sup>*}"
  have symS: "sym (shareRel cs)"
    by (auto simp: sym_def shareRel_def)
  have "sym C"
    unfolding C_def sym_def using sym_rtrancl [OF symS] by (auto dest: symD)
  moreover have "trans C"
    unfolding C_def trans_def by auto
  moreover have "E \<subseteq> C"
  proof
    fix e assume "e \<in> E"
    then obtain l where l: "l \<in> set ls" "e \<in> starEdges l"
      unfolding E_def by blast
    from l(2) obtain first others where fo: "l = first # others" "fst e = first" "snd e \<in> set others"
      by (cases l) (auto simp: starEdges_def)
    from entries [OF l(1)] obtain cell where "set l = {i. i < n \<and> cell \<in> set (cells (cs ! i))}"
      by blast
    with fo have "fst e < n" "snd e < n" "cell \<in> set (cells (cs ! fst e))"
      "cell \<in> set (cells (cs ! snd e))"
      by auto
    then have "(fst e, snd e) \<in> shareRel cs"
      by (auto simp: shareRel_def n_def)
    with \<open>fst e < n\<close> \<open>snd e < n\<close> show "e \<in> C"
      by (cases e) (auto simp: C_def)
  qed
  moreover have "uf_rel [0..<n] \<subseteq> C"
    by (auto simp: uf_rel_def sameRoot_def rootOf_init C_def)
  ultimately have "uf_rel p \<subseteq> C"
    by (rule d(5))
  then have complete: "(i, j) \<in> (shareRel cs)\<^sup>*" if "rt i = rt j" "i < n" "j < n" for i j
    using that same_rt [of i j] by (auto simp: uf_rel_def C_def)
  from res sound complete show ?thesis
    unfolding n_def by blast
qed

text \<open>
  Claim C8. For every list of constraints, \<open>partitionConstraints\<close> returns, and its groups
  are the constraints at the indices of index groups \<open>gs\<close> such that: no group is empty and
  every index of the list occurs in exactly one group, exactly once (an exact partition);
  a constraint that shares a cell with a constraint of a group is in that group; and any
  two constraints of a group are linked by a chain of constraints in which neighbours share
  a cell. (The claim asks this of non-empty lists of constraints with non-empty cell sets;
  it holds of every list.)
\<close>

theorem partition_components:
  "\<exists>gs. partitionConstraints cs = Some (map (map (\<lambda>i. cs ! i)) gs) \<and>
     [] \<notin> set gs \<and> distinct (concat gs) \<and> set (concat gs) = {..<length cs} \<and>
     (\<forall>g \<in> set gs. \<forall>i \<in> set g. \<forall>j. (i, j) \<in> shareRel cs \<longrightarrow> j \<in> set g) \<and>
     (\<forall>g \<in> set gs. \<forall>i \<in> set g. \<forall>j \<in> set g. (i, j) \<in> (shareRel cs)\<^sup>*)"
proof -
  from partition_roots [of cs] obtain rt where rt:
    "partitionConstraints cs = Some (map (map (\<lambda>i. cs ! i)) (indexGroups rt (length cs)))"
    "\<forall>i < length cs. \<forall>j < length cs. rt i = rt j \<longleftrightarrow> (i, j) \<in> (shareRel cs)\<^sup>*"
    by blast
  let ?gs = "indexGroups rt (length cs)"
  have cls: "set g = {j. j < length cs \<and> rt j = rt i}" if "g \<in> set ?gs" "i \<in> set g" for g i
    using that by (rule indexGroups_classes)
  have share: "j \<in> set g" if "g \<in> set ?gs" "i \<in> set g" "(i, j) \<in> shareRel cs" for g i j
  proof -
    from that(3) have ij: "i < length cs" "j < length cs"
      by (auto simp: shareRel_def)
    with that(3) rt(2) have "rt i = rt j" by blast
    with cls [OF that(1,2)] ij show ?thesis by simp
  qed
  have chain: "(i, j) \<in> (shareRel cs)\<^sup>*" if "g \<in> set ?gs" "i \<in> set g" "j \<in> set g" for g i j
  proof -
    from cls [OF that(1,2)] that(2,3) have "i < length cs" "j < length cs" "rt i = rt j"
      by auto
    with rt(2) show ?thesis by blast
  qed
  from rt(1) indexGroups_partition [of rt "length cs"] share chain show ?thesis
    by blast
qed

theorem partition_components_witness:
  "partitionConstraints fourConstraints =
     Some [[fourConstraints ! 0, fourConstraints ! 2], [fourConstraints ! 1, fourConstraints ! 3]] \<and>
   (\<exists>gs. partitionConstraints fourConstraints = Some (map (map (\<lambda>i. fourConstraints ! i)) gs) \<and>
     [] \<notin> set gs \<and> distinct (concat gs) \<and> set (concat gs) = {..<length fourConstraints} \<and>
     (\<forall>g \<in> set gs. \<forall>i \<in> set g. \<forall>j. (i, j) \<in> shareRel fourConstraints \<longrightarrow> j \<in> set g) \<and>
     (\<forall>g \<in> set gs. \<forall>i \<in> set g. \<forall>j \<in> set g. (i, j) \<in> (shareRel fourConstraints)\<^sup>*))"
proof -
  have "partitionConstraints fourConstraints =
     Some [[fourConstraints ! 0, fourConstraints ! 2], [fourConstraints ! 1, fourConstraints ! 3]]"
    by code_simp
  with partition_components [of fourConstraints] show ?thesis
    by blast
qed


section \<open>Every probability lies between 0 and 1\<close>

lemma set_update_subset: "set (AList.update k v al) \<subseteq> insert (k, v) (set al)"
  by (induction al) auto

lemma probsInRange_update:
  "probsInRange result \<Longrightarrow> 0 \<le> p \<Longrightarrow> p \<le> 1 \<Longrightarrow> probsInRange (AList.update key p result)"
  using set_update_subset [of key p result] by (auto simp: probsInRange_def)

lemma probsInRange_fold_update:
  assumes "probsInRange result" and "\<And>key. key \<in> set keys \<Longrightarrow> 0 \<le> f key \<and> f key \<le> 1"
  shows "probsInRange (fold (\<lambda>key res. AList.update key (f key) res) keys result)"
  using assms by (induction keys arbitrary: result) (auto simp: probsInRange_update)

lemma clamp01_range: "0 \<le> clamp01 x \<and> clamp01 x \<le> 1"
  by (simp add: clamp01_def)

lemma probsInRange_recordDefinitive: "probsInRange (recordDefinitive k)"
  unfolding recordDefinitive_def
  by (intro probsInRange_fold_update) (simp_all add: probsInRange_def)

text \<open>The counts of lines 217-226.\<close>

lemma lookupCount_map_entry:
  "lookupCount (AList.map_entry key Suc mc) k' =
     (if k' = key \<and> key \<in> fst ` set mc then Suc (lookupCount mc k') else lookupCount mc k')"
proof -
  have "key \<in> fst ` set mc \<longleftrightarrow> map_of mc key \<noteq> None"
    by (simp add: map_of_eq_None_iff)
  then show ?thesis
    by (auto simp: lookupCount_def AList.map_of_map_entry split: option.splits)
qed

lemma keys_map_entry_Suc [simp]: "fst ` set (AList.map_entry key Suc mc) = fst ` set mc"
  by (rule AList.dom_map_entry)

lemma lookupCount_solution:
  "lookupCount (fold (\<lambda>key mc. AList.map_entry key Suc mc) solution mc) k' =
     (if k' \<in> fst ` set mc then lookupCount mc k' + count_list solution k' else lookupCount mc k')"
proof (induction solution arbitrary: mc)
  case Nil
  show ?case by simp
next
  case (Cons key solution)
  show ?case
    by (simp add: Cons.IH lookupCount_map_entry)
qed

lemma keys_solution [simp]:
  "fst ` set (fold (\<lambda>key mc. AList.map_entry key Suc mc) solution mc) = fst ` set mc"
  by (induction solution arbitrary: mc) simp_all

lemma lookupCount_solutions:
  "lookupCount (fold (\<lambda>solution mineCounts.
        fold (\<lambda>key mc. AList.map_entry key Suc mc) solution mineCounts) solutions mc) k' =
     (if k' \<in> fst ` set mc
      then lookupCount mc k' + sum_list (map (\<lambda>solution. count_list solution k') solutions)
      else lookupCount mc k')"
proof (induction solutions arbitrary: mc)
  case Nil
  show ?case by simp
next
  case (Cons solution solutions)
  show ?case
    by (simp add: Cons.IH lookupCount_solution)
qed

lemma initial_counts:
  "fst ` set (fold (\<lambda>key mc. AList.update key 0 mc) cellArray mc) = fst ` set mc \<union> set cellArray"
  "k' \<in> set cellArray \<Longrightarrow>
     lookupCount (fold (\<lambda>key mc. AList.update key (0::nat) mc) cellArray mc) k' = 0"
  "k' \<notin> set cellArray \<Longrightarrow>
     lookupCount (fold (\<lambda>key mc. AList.update key (0::nat) mc) cellArray mc) k' = lookupCount mc k'"
proof -
  show "fst ` set (fold (\<lambda>key mc. AList.update key 0 mc) cellArray mc) = fst ` set mc \<union> set cellArray"
    by (induction cellArray arbitrary: mc) (auto simp: AList.dom_update)
  have upd: "lookupCount (AList.update key 0 mc) x = (if x = key then 0 else lookupCount mc x)"
    for key x and mc :: "(string \<times> nat) list"
    by (simp add: lookupCount_def AList.update_conv')
  show notin: "lookupCount (fold (\<lambda>key mc. AList.update key (0::nat) mc) cellArray mc) k' = lookupCount mc k'"
    if "k' \<notin> set cellArray" for cellArray mc
    using that by (induction cellArray arbitrary: mc) (auto simp: upd)
  show "lookupCount (fold (\<lambda>key mc. AList.update key (0::nat) mc) cellArray mc) k' = 0"
    if "k' \<in> set cellArray"
    using that
  proof (induction cellArray arbitrary: mc)
    case Nil
    then show ?case by simp
  next
    case (Cons key cellArray)
    show ?case
    proof (cases "k' \<in> set cellArray")
      case True
      then show ?thesis using Cons.IH by simp
    next
      case False
      with Cons.prems have "k' = key" by simp
      with False notin [of cellArray "AList.update key 0 mc"] show ?thesis
        by (simp add: upd)
    qed
  qed
qed

lemma lookupCount_countMines:
  "lookupCount (countMines cellArray solutions) key =
     (if key \<in> set cellArray then sum_list (map (\<lambda>solution. count_list solution key) solutions)
      else 0)"
  unfolding countMines_def
  by (simp add: lookupCount_solutions initial_counts) (simp add: lookupCount_def)

lemma count_list_distinct: "distinct xs \<Longrightarrow> count_list xs x = (if x \<in> set xs then 1 else 0)"
  by (induction xs) auto

lemma lookupCount_countMines_distinct:
  assumes "\<forall>solution \<in> set solutions. distinct solution" and "key \<in> set cellArray"
  shows "lookupCount (countMines cellArray solutions) key =
           length (filter (\<lambda>solution. key \<in> set solution) solutions)"
proof -
  have "sum_list (map (\<lambda>solution. count_list solution key) solutions) =
      length (filter (\<lambda>solution. key \<in> set solution) solutions)"
    using assms(1) by (induction solutions) (auto simp: count_list_distinct)
  with assms(2) show ?thesis
    by (simp add: lookupCount_countMines)
qed


text \<open>The solutions of solveConstraints.\<close>

lemma distinct_maskMines: "distinct cs \<Longrightarrow> distinct (maskMines cs msk)"
  unfolding maskMines_def
  by (simp add: distinct_map inj_on_nth)

lemma set_maskMines_subset: "set (maskMines cs msk) \<subseteq> set cs"
  by (auto simp: maskMines_def)

lemma solveLoop_solutions:
  assumes "s \<in> set (solveLoop cs constraints M msk sols)"
  shows "s \<in> set sols \<or> (\<exists>m. s = maskMines cs m \<and> validAssignment constraints s)"
  using assms
proof (induction cs constraints M msk sols rule: solveLoop.induct)
  case (1 cs constraints M msk sols)
  show ?case
  proof (cases "msk < M \<and> \<not> int (length sols) \<ge> maxSolutions")
    case True
    let ?sols' = "if validAssignment constraints (maskMines cs msk)
                  then sols @ [maskMines cs msk] else sols"
    from True "1.prems" have "s \<in> set (solveLoop cs constraints M (msk + 1) ?sols')"
      by (subst (asm) solveLoop.simps) simp
    with "1.IH" True have "s \<in> set ?sols' \<or> (\<exists>m. s = maskMines cs m \<and> validAssignment constraints s)"
      by simp
    then show ?thesis
      by (auto split: if_splits)
  next
    case False
    with "1.prems" have "s \<in> set sols"
      by (subst (asm) solveLoop.simps) (auto split: if_splits)
    then show ?thesis ..
  qed
qed

lemma solveConstraints_solutions:
  assumes "s \<in> set (solveConstraints cs constraints)"
  shows "(\<exists>m. s = maskMines cs m) \<and> validAssignment constraints s"
  using assms solveLoop_solutions [of s cs constraints "2 ^ length cs" 0 "[]"]
  by (auto simp: solveConstraints_def Let_def split: if_splits)

lemma distinct_set_add: "distinct s \<Longrightarrow> distinct (set_add k s)"
  by (simp add: set_add_def)

lemma set_set_add [simp]: "set (set_add k s) = insert k (set s)"
  by (auto simp: set_add_def)

lemma fold_set_add: "set (fold set_add ks s) = set s \<union> set ks"
  "distinct s \<Longrightarrow> distinct (fold set_add ks s)"
  by (induction ks arbitrary: s) (auto simp: distinct_set_add)

lemma groupCellArray_set: "set (groupCellArray grp) = (\<Union>c \<in> set grp. set (cells c))"
proof -
  have "set (fold (\<lambda>constraint groupCells. fold set_add (cells constraint) groupCells) grp s) =
      set s \<union> (\<Union>c \<in> set grp. set (cells c))" for s
    by (induction grp arbitrary: s) (auto simp: fold_set_add)
  then show ?thesis by (simp add: groupCellArray_def)
qed

lemma groupCellArray_distinct: "distinct (groupCellArray grp)"
proof -
  have "distinct s \<Longrightarrow>
      distinct (fold (\<lambda>constraint groupCells. fold set_add (cells constraint) groupCells) grp s)" for s
    by (induction grp arbitrary: s) (auto simp: fold_set_add)
  then show ?thesis by (simp add: groupCellArray_def)
qed

lemma exact_probability_range:
  assumes "key \<in> set cellArray" and "distinct cellArray"
    and "solutions = solveConstraints cellArray grp"
  shows "0 \<le> rat_of_nat (lookupCount (countMines cellArray solutions) key) / rat_of_nat (length solutions)"
    and "rat_of_nat (lookupCount (countMines cellArray solutions) key) / rat_of_nat (length solutions) \<le> 1"
proof -
  have "\<forall>s \<in> set solutions. distinct s"
  proof
    fix s assume "s \<in> set solutions"
    with assms(3) obtain m where "s = maskMines cellArray m"
      using solveConstraints_solutions [of s cellArray grp] by blast
    with assms(2) show "distinct s" by (simp add: distinct_maskMines)
  qed
  from lookupCount_countMines_distinct [OF this assms(1)]
  have le: "lookupCount (countMines cellArray solutions) key \<le> length solutions"
    by simp
  show "0 \<le> rat_of_nat (lookupCount (countMines cellArray solutions) key) / rat_of_nat (length solutions)"
    by simp
  show "rat_of_nat (lookupCount (countMines cellArray solutions) key) / rat_of_nat (length solutions) \<le> 1"
    using le by (simp add: divide_le_eq_1)
qed

lemma probsInRange_solveGroup:
  assumes "probsInRange result"
  shows "probsInRange (solveGroup grp result)"
proof -
  let ?cellArray = "groupCellArray grp"
  have exact: "probsInRange (exactProbabilities ?cellArray (solveConstraints ?cellArray grp) result)"
    unfolding exactProbabilities_def Let_def
    using exact_probability_range [OF _ groupCellArray_distinct refl, of _ grp grp]
    by (intro probsInRange_fold_update assms) simp
  have half: "probsInRange (fold (\<lambda>key res. AList.update key (1 / 2) res) ?cellArray result)"
    by (intro probsInRange_fold_update assms) simp
  have avg: "probsInRange (averageProbabilities grp ?cellArray result)"
  proof -
    have "probsInRange (fold (\<lambda>key res. if map_of res key = None
        then AList.update key (clamp01 (f key)) res else res) keys res0)"
      if "probsInRange res0" for f keys res0
      using that by (induction keys arbitrary: res0) (auto simp: probsInRange_update clamp01_range)
    from this [OF assms] show ?thesis
      unfolding averageProbabilities_def Let_def split_beta .
  qed
  from exact half avg assms show ?thesis
    by (simp add: solveGroup_def Let_def)
qed

lemma probsInRange_fillRemaining:
  assumes "probsInRange result"
  shows "probsInRange (fillRemaining unrevealedCells frontierCells k minesRemaining result)"
proof -
  have cond: "probsInRange (fold (\<lambda>key res. if map_of res key = None
        then AList.update key (clamp01 x) res else res) keys res0)"
    if "probsInRange res0" for x keys res0
    using that by (induction keys arbitrary: res0) (auto simp: probsInRange_update clamp01_range)
  have plain: "probsInRange (fold (\<lambda>key res. AList.update key (clamp01 x) res) keys result)" for x keys
    by (intro probsInRange_fold_update assms) (simp add: clamp01_range)
  show ?thesis
    unfolding fillRemaining_def Let_def
    by (intro cond) (auto simp: plain assms)
qed

lemma probsInRange_fold_solveGroup:
  "probsInRange result \<Longrightarrow> probsInRange (fold solveGroup groups result)"
  by (rule fold_invariant) (simp_all add: probsInRange_solveGroup)

text \<open>calculateProbabilities returns on every board.\<close>

lemma calculateProbabilities_returns:
  "\<exists>groups. partitionConstraints (activeConstraints b) = Some groups \<and>
     calculateProbabilities b minesRemaining =
       Some (fillRemaining (fst (buildConstraints b))
               (collectFrontier (snd (propagated b)) (activeConstraints b))
               (snd (propagated b)) minesRemaining
               (fold solveGroup groups (recordDefinitive (snd (propagated b)))))"
proof -
  from partition_roots [of "activeConstraints b"] obtain groups where
    "partitionConstraints (activeConstraints b) = Some groups"
    by blast
  then show ?thesis
    by (simp add: calculateProbabilities_def Let_def)
qed

text \<open>
  Claim C7. For every board and every \<open>minesRemaining\<close>, calculateProbabilities returns a
  map, and every probability \<open>p\<close> in it satisfies \<open>0 \<le> p \<le> 1\<close>.
\<close>

theorem probabilities_in_range:
  "\<exists>result. calculateProbabilities b minesRemaining = Some result \<and>
     (\<forall>entry \<in> set result. 0 \<le> snd entry \<and> snd entry \<le> 1)"
proof -
  from calculateProbabilities_returns [of b minesRemaining] obtain groups where
    res: "calculateProbabilities b minesRemaining =
       Some (fillRemaining (fst (buildConstraints b))
               (collectFrontier (snd (propagated b)) (activeConstraints b))
               (snd (propagated b)) minesRemaining
               (fold solveGroup groups (recordDefinitive (snd (propagated b)))))"
    by blast
  have "probsInRange (fillRemaining (fst (buildConstraints b))
               (collectFrontier (snd (propagated b)) (activeConstraints b))
               (snd (propagated b)) minesRemaining
               (fold solveGroup groups (recordDefinitive (snd (propagated b)))))"
    by (intro probsInRange_fillRemaining probsInRange_fold_solveGroup
        probsInRange_recordDefinitive)
  with res show ?thesis
    by (simp add: probsInRange_def)
qed

theorem probabilities_in_range_witness:
  "calculateProbabilities board4x4 2 =
     Some [(''2,3'', 0), (''3,0'', 1), (''1,2'', 1 / 2), (''1,3'', 1 / 2)] \<and>
   (\<exists>result. calculateProbabilities board4x4 2 = Some result \<and>
      (''1,2'', 1 / 2) \<in> set result \<and> (0::rat) \<le> 1 / 2 \<and> (1 / 2 :: rat) \<le> 1)"
proof -
  have v: "calculateProbabilities board4x4 2 =
     Some [(''2,3'', 0), (''3,0'', 1), (''1,2'', 1 / 2), (''1,3'', 1 / 2)]"
    by code_simp
  from probabilities_in_range [of board4x4 2] obtain result where
    r: "calculateProbabilities board4x4 2 = Some result"
       "\<forall>entry \<in> set result. 0 \<le> snd entry \<and> snd entry \<le> 1"
    by blast
  from r(1) v have "(''1,2'', 1 / 2) \<in> set result" by auto
  with r(2) have "(0::rat) \<le> 1 / 2 \<and> (1 / 2 :: rat) \<le> 1" by fastforce
  with v r(1) \<open>(''1,2'', 1 / 2) \<in> set result\<close> show ?thesis by blast
qed


section \<open>The keys of the result\<close>

lemma keysOf_update [simp]: "keysOf (AList.update key p result) = insert key (keysOf result)"
  by (simp add: keysOf_def AList.dom_update)

lemma keysOf_Nil [simp]: "keysOf [] = {}"
  by (simp add: keysOf_def)

lemma keysOf_map_of: "key \<in> keysOf result \<longleftrightarrow> map_of result key \<noteq> None"
  by (simp add: keysOf_def map_of_eq_None_iff)

lemma keys_fold_update:
  "keysOf (fold (\<lambda>key res. AList.update key (f key) res) keys result) = keysOf result \<union> set keys"
  "distinct (map fst result) \<Longrightarrow>
     distinct (map fst (fold (\<lambda>key res. AList.update key (f key) res) keys result))"
  by (induction keys arbitrary: result) (auto simp: AList.distinct_update)

lemma keys_fold_update_missing:
  "keysOf (fold (\<lambda>key res. if map_of res key = None then AList.update key (f key) res else res)
      keys result) = keysOf result \<union> set keys"
  "distinct (map fst result) \<Longrightarrow>
     distinct (map fst (fold (\<lambda>key res. if map_of res key = None
        then AList.update key (f key) res else res) keys result))"
  by (induction keys arbitrary: result) (auto simp: AList.distinct_update keysOf_map_of)

lemma keys_recordDefinitive:
  "keysOf (recordDefinitive k) = set (knownSafe k) \<union> set (knownMines k)"
  "distinct (map fst (recordDefinitive k))"
  unfolding recordDefinitive_def
  by (simp_all add: keys_fold_update)

lemma keys_solveGroup:
  "keysOf (solveGroup grp result) = keysOf result \<union> set (groupCellArray grp)"
  "distinct (map fst result) \<Longrightarrow> distinct (map fst (solveGroup grp result))"
proof -
  have empty: "groupCellArray grp = []" if "\<not> 0 < length (groupCellArray grp)"
    using that by simp
  show "keysOf (solveGroup grp result) = keysOf result \<union> set (groupCellArray grp)"
    unfolding solveGroup_def Let_def exactProbabilities_def averageProbabilities_def split_beta
    by (auto simp: keys_fold_update keys_fold_update_missing dest: empty)
  show "distinct (map fst (solveGroup grp result))" if "distinct (map fst result)"
    unfolding solveGroup_def Let_def exactProbabilities_def averageProbabilities_def split_beta
    using that by (auto simp: keys_fold_update keys_fold_update_missing)
qed

lemma keys_fold_solveGroup:
  "keysOf (fold solveGroup groups result) =
     keysOf result \<union> (\<Union>grp \<in> set groups. set (groupCellArray grp))"
  "distinct (map fst result) \<Longrightarrow> distinct (map fst (fold solveGroup groups result))"
  by (induction groups arbitrary: result) (auto simp: keys_solveGroup)

lemma keys_fillRemaining:
  "keysOf (fillRemaining unrevealedCells frontierCells k minesRemaining result) =
     keysOf result \<union> set unrevealedCells"
  "distinct (map fst result) \<Longrightarrow>
     distinct (map fst (fillRemaining unrevealedCells frontierCells k minesRemaining result))"
  unfolding fillRemaining_def Let_def
  by (auto simp: keys_fold_update keys_fold_update_missing)


lemma updateConstraint_cells:
  "cells (fst (updateConstraint c k)) =
     filter (\<lambda>key. key \<notin> set (knownSafe k) \<and> key \<notin> set (knownMines k)) (cells c)"
proof -
  obtain ml rem where n: "narrowCells k (cells c) (mines c, []) = (ml, rem)"
    by (cases "narrowCells k (cells c) (mines c, [])")
  from narrowCells_snd [of k "cells c" "mines c" "[]"] n
  have "rem = filter (\<lambda>key. key \<notin> set (knownSafe k) \<and> key \<notin> set (knownMines k)) (cells c)"
    by simp
  with n show ?thesis
    by (simp add: updateConstraint_def Let_def)
qed

lemma updateConstraint_known:
  "set (knownSafe (snd (updateConstraint c k))) \<subseteq> set (knownSafe k) \<union> set (cells c)"
  "set (knownMines (snd (updateConstraint c k))) \<subseteq> set (knownMines k) \<union> set (cells c)"
proof -
  obtain ml rem where n: "narrowCells k (cells c) (mines c, []) = (ml, rem)"
    by (cases "narrowCells k (cells c) (mines c, [])")
  from narrowCells_snd [of k "cells c" "mines c" "[]"] n
  have "set rem \<subseteq> set (cells c)"
    by auto
  with n show "set (knownSafe (snd (updateConstraint c k))) \<subseteq> set (knownSafe k) \<union> set (cells c)"
    "set (knownMines (snd (updateConstraint c k))) \<subseteq> set (knownMines k) \<union> set (cells c)"
    by (auto simp: updateConstraint_def Let_def)
qed

lemma updateConstraints_within:
  assumes "withinCells U (cs, k)"
  shows "withinCells U (updateConstraints cs k)"
  using assms
proof (induction cs arbitrary: k)
  case Nil
  then show ?case by simp
next
  case (Cons c cs)
  let ?k' = "snd (updateConstraint c k)"
  have c: "set (cells (fst (updateConstraint c k))) \<subseteq> U"
    using Cons.prems by (auto simp: withinCells_def updateConstraint_cells)
  have "withinCells U (cs, ?k')"
    using Cons.prems updateConstraint_known [of c k] by (auto simp: withinCells_def)
  from Cons.IH [OF this] c show ?case
    by (simp add: split_beta withinCells_def)
qed

lemma comparePair_within:
  assumes "j < length cs" and "set (cells (cs ! j)) \<subseteq> U"
    and "set (knownSafe (fst st)) \<subseteq> U" "set (knownMines (fst st)) \<subseteq> U"
    "\<forall>d \<in> set (snd st). set (cells d) \<subseteq> U"
  shows "set (knownSafe (fst (comparePair cs i j st))) \<subseteq> U \<and>
         set (knownMines (fst (comparePair cs i j st))) \<subseteq> U \<and>
         (\<forall>d \<in> set (snd (comparePair cs i j st)). set (cells d) \<subseteq> U)"
  using assms by (auto simp: comparePair_def Let_def)

lemma subsetAnalysis_within:
  assumes "\<forall>c \<in> set cs. set (cells c) \<subseteq> U" and "set (knownSafe k) \<subseteq> U" and "set (knownMines k) \<subseteq> U"
  shows "set (knownSafe (fst (subsetAnalysis cs k))) \<subseteq> U \<and>
         set (knownMines (fst (subsetAnalysis cs k))) \<subseteq> U \<and>
         (\<forall>d \<in> set (snd (subsetAnalysis cs k)). set (cells d) \<subseteq> U)"
proof -
  let ?Inv = "\<lambda>st :: Known \<times> Constraint list. set (knownSafe (fst st)) \<subseteq> U \<and>
         set (knownMines (fst st)) \<subseteq> U \<and> (\<forall>d \<in> set (snd st). set (cells d) \<subseteq> U)"
  have pair: "?Inv (comparePair cs i j st)" if "j \<in> set [0..<length cs]" "?Inv st" for i j st
  proof -
    from that(1) assms(1) have "j < length cs" "set (cells (cs ! j)) \<subseteq> U"
      by simp_all
    with that(2) show ?thesis
      by (intro comparePair_within) simp_all
  qed
  have row: "?Inv (fold (comparePair cs i) [0..<length cs] st)" if "?Inv st" for i st
    using pair that by (rule fold_invariant)
  have "?Inv (fold (\<lambda>i st. if length (cells (cs ! i)) = 0 then st
                  else fold (comparePair cs i) [0..<length cs] st)
       [0..<maxConstraintsToCompare cs] (k, []))"
  proof (rule fold_invariant [where Inv = ?Inv])
    show "?Inv (k, [])" using assms by simp
    show "?Inv (if length (cells (cs ! i)) = 0 then st
        else fold (comparePair cs i) [0..<length cs] st)" if "?Inv st" for i st
      using that row [OF that, of i] by (simp split: if_splits)
  qed
  then show ?thesis
    by (simp add: subsetAnalysis_def)
qed

lemma propagationPass_within:
  assumes "withinCells U st"
  shows "withinCells U (propagationPass st)"
proof -
  obtain cs k where u: "updateConstraints (fst st) (snd st) = (cs, k)"
    by (cases "updateConstraints (fst st) (snd st)")
  obtain k' ds where a: "subsetAnalysis cs k = (k', ds)"
    by (cases "subsetAnalysis cs k")
  from assms have "withinCells U (fst st, snd st)" by simp
  from updateConstraints_within [OF this] u have w: "withinCells U (cs, k)"
    by simp
  then have "set (knownSafe (fst (subsetAnalysis cs k))) \<subseteq> U \<and>
         set (knownMines (fst (subsetAnalysis cs k))) \<subseteq> U \<and>
         (\<forall>d \<in> set (snd (subsetAnalysis cs k)). set (cells d) \<subseteq> U)"
    by (intro subsetAnalysis_within) (simp_all add: withinCells_def)
  with a w u show ?thesis
    by (auto simp: propagationPass_def withinCells_def)
qed

lemma passes_within:
  assumes "\<forall>c \<in> set (snd (buildConstraints b)). set (cells c) \<subseteq> U"
  shows "withinCells U (passes n b)"
proof (induction n)
  case 0
  with assms show ?case
    by (simp add: passes_0 withinCells_def initialKnown_def)
next
  case (Suc n)
  then have "withinCells U (fst (passes n b), (snd (passes n b))\<lparr>changed := False\<rparr>)"
    by (simp add: withinCells_def)
  then show ?case
    unfolding passes_Suc loopBody_def by (rule propagationPass_within)
qed

lemma propagated_within:
  assumes "\<forall>c \<in> set (snd (buildConstraints b)). set (cells c) \<subseteq> U"
  shows "withinCells U (propagated b)"
  using passes_within [OF assms] propagated_passes [of b] by auto


lemma wf_boardD:
  assumes "wf_board b" and "r < rows b" and "c < cols b"
  shows "row (board_cells b ! r ! c) = r" and "col (board_cells b ! r ! c) = c"
  using assms by (auto simp: wf_board_def list_all_iff)

lemma getCell_nat:
  "getCell b (int r) (int c) =
     (if r < rows b \<and> c < cols b then Some (board_cells b ! r ! c) else None)"
  by (simp add: getCell_def isValidCell_def)

lemma fst_scanCell:
  "fst (scanCell b r c st) =
     (if unknownAt b r c then set_add (cellKey r c) (fst st) else fst st)"
  by (auto simp: scanCell_def getCell_nat unknownAt_def Let_def)

lemma getNeighbors_cells:
  assumes "n \<in> set (getNeighbors b r c)"
  shows "\<exists>r' c'. r' < rows b \<and> c' < cols b \<and> n = board_cells b ! r' ! c'"
proof -
  from assms obtain dr dc where d: "isValidCell b (r + dr) (c + dc)"
    "n = board_cells b ! nat (r + dr) ! nat (c + dc)"
    by (auto simp: getNeighbors_def)
  from d(1) have "nat (r + dr) < rows b" "nat (c + dc) < cols b"
    by (auto simp: isValidCell_def)
  with d(2) show ?thesis by blast
qed

lemma snd_scanCell:
  assumes "wf_board b" and "\<forall>d \<in> set (snd st). set (cells d) \<subseteq> {cellKey r c | r c. unknownAt b r c}"
  shows "\<forall>d \<in> set (snd (scanCell b r c st)). set (cells d) \<subseteq> {cellKey r c | r c. unknownAt b r c}"
proof -
  have "cellKey (row n) (col n) \<in> {cellKey r c | r c. unknownAt b r c}"
    if "n \<in> set (getNeighbors b (int r) (int c))" "\<not> isRevealed n" "\<not> isFlagged n" for n
  proof -
    from getNeighbors_cells [OF that(1)] obtain r' c' where
      n: "r' < rows b" "c' < cols b" "n = board_cells b ! r' ! c'"
      by blast
    with wf_boardD [OF assms(1) n(1,2)] that(2,3) have "row n = r'" "col n = c'" "unknownAt b r' c'"
      by (simp_all add: unknownAt_def)
    then show ?thesis by blast
  qed
  with assms(2) show ?thesis
    by (auto simp: scanCell_def Let_def split: option.splits)
qed

lemma buildConstraints_unrevealed:
  "set (fst (buildConstraints b)) = {cellKey r c | r c. unknownAt b r c}"
  "distinct (fst (buildConstraints b))"
proof -
  have inner: "set (fst (fold (\<lambda>c st'. scanCell b r c st') cl st)) =
      set (fst st) \<union> {cellKey r c | c. c \<in> set cl \<and> unknownAt b r c}" for r cl st
    by (induction cl arbitrary: st) (auto simp: fst_scanCell)
  have outer: "set (fst (fold (\<lambda>r st. fold (\<lambda>c st'. scanCell b r c st') [0..<cols b] st) rl st)) =
      set (fst st) \<union> {cellKey r c | r c. r \<in> set rl \<and> c < cols b \<and> unknownAt b r c}" for rl st
    by (induction rl arbitrary: st) (auto simp: inner)
  show "set (fst (buildConstraints b)) = {cellKey r c | r c. unknownAt b r c}"
    by (auto simp: buildConstraints_def outer unknownAt_def)
  have dinner: "distinct (fst (fold (\<lambda>c st'. scanCell b r c st') cl st))"
    if "distinct (fst st)" for r cl st
    using that by (induction cl arbitrary: st) (auto simp: fst_scanCell distinct_set_add)
  have douter: "distinct (fst (fold (\<lambda>r st. fold (\<lambda>c st'. scanCell b r c st') [0..<cols b] st) rl st))"
    if "distinct (fst st)" for rl st
    using that by (induction rl arbitrary: st) (auto simp: dinner)
  show "distinct (fst (buildConstraints b))"
    unfolding buildConstraints_def by (rule douter) simp
qed

lemma buildConstraints_cells:
  assumes "wf_board b"
  shows "\<forall>d \<in> set (snd (buildConstraints b)). set (cells d) \<subseteq> {cellKey r c | r c. unknownAt b r c}"
  unfolding buildConstraints_def
  by (rule fold_invariant, rule fold_invariant) (simp_all add: snd_scanCell [OF assms])


lemma partition_groups_subset:
  assumes "partitionConstraints cs = Some groups"
  shows "\<forall>grp \<in> set groups. set grp \<subseteq> set cs"
proof -
  from partition_roots [of cs] assms obtain rt where
    g: "groups = map (map (\<lambda>i. cs ! i)) (indexGroups rt (length cs))"
    by auto
  have "i < length cs" if "ig \<in> set (indexGroups rt (length cs))" "i \<in> set ig" for ig i
  proof -
    from that have "i \<in> set (concat (indexGroups rt (length cs)))" by auto
    then show ?thesis unfolding indexGroups_partition(2) by simp
  qed
  with g show ?thesis by auto
qed

lemma one_entry_per_key:
  "distinct (map fst result) \<Longrightarrow> key \<in> fst ` set result \<Longrightarrow>
   length (filter (\<lambda>entry. fst entry = key) result) = 1"
proof (induction result)
  case Nil
  then show ?case by simp
next
  case (Cons e result)
  show ?case
  proof (cases "fst e = key")
    case True
    with Cons.prems have "key \<notin> fst ` set result"
      by simp
    then have "filter (\<lambda>entry. fst entry = key) result = []"
      unfolding filter_empty_conv by force
    with True show ?thesis by simp
  next
    case False
    with Cons show ?thesis by auto
  qed
qed

lemma result_keys:
  assumes "wf_board b"
  shows "\<exists>result. calculateProbabilities b minesRemaining = Some result \<and>
     distinct (map fst result) \<and> keysOf result = {cellKey r c | r c. unknownAt b r c}"
proof -
  let ?U = "{cellKey r c | r c. unknownAt b r c}"
  let ?k = "snd (propagated b)"
  from calculateProbabilities_returns [of b minesRemaining] obtain groups where
    part: "partitionConstraints (activeConstraints b) = Some groups" and
    res: "calculateProbabilities b minesRemaining =
       Some (fillRemaining (fst (buildConstraints b))
               (collectFrontier ?k (activeConstraints b)) ?k minesRemaining
               (fold solveGroup groups (recordDefinitive ?k)))"
    by blast
  let ?result = "fillRemaining (fst (buildConstraints b))
               (collectFrontier ?k (activeConstraints b)) ?k minesRemaining
               (fold solveGroup groups (recordDefinitive ?k))"
  have within: "withinCells ?U (propagated b)"
    by (rule propagated_within) (rule buildConstraints_cells [OF assms])
  then have known: "set (knownSafe ?k) \<subseteq> ?U" "set (knownMines ?k) \<subseteq> ?U"
    and active: "\<forall>c \<in> set (activeConstraints b). set (cells c) \<subseteq> ?U"
    by (auto simp: withinCells_def activeConstraints_def)
  have "set (groupCellArray grp) \<subseteq> ?U" if "grp \<in> set groups" for grp
  proof -
    from partition_groups_subset [OF part] that have "set grp \<subseteq> set (activeConstraints b)"
      by blast
    with active show ?thesis
      unfolding groupCellArray_set by blast
  qed
  then have groups: "(\<Union>grp \<in> set groups. set (groupCellArray grp)) \<subseteq> ?U"
    by blast
  have "keysOf ?result = ?U"
    using known groups
    by (simp add: keys_fillRemaining keys_fold_solveGroup keys_recordDefinitive
        buildConstraints_unrevealed) blast
  moreover have "distinct (map fst ?result)"
    by (intro keys_fillRemaining keys_fold_solveGroup keys_recordDefinitive)
  ultimately show ?thesis
    using res by blast
qed

text \<open>
  Claim C6. On a board as the class builds it (\<open>wf_board\<close>), for every \<open>minesRemaining\<close>,
  calculateProbabilities returns a map in which no key occurs twice and whose keys are
  exactly the keys of the unrevealed, unflagged cells of the board: a cell of the board
  that is unrevealed and unflagged has exactly one entry, a cell that is revealed or
  flagged has none.
\<close>

theorem result_covers_unknown_cells:
  assumes "wf_board b"
  shows "\<exists>result. calculateProbabilities b minesRemaining = Some result \<and>
     distinct (map fst result) \<and>
     fst ` set result = {cellKey r c | r c. unknownAt b r c} \<and>
     (\<forall>r c. r < rows b \<and> c < cols b \<longrightarrow>
        (if \<not> isRevealed (board_cells b ! r ! c) \<and> \<not> isFlagged (board_cells b ! r ! c)
         then length (filter (\<lambda>entry. fst entry = cellKey r c) result) = 1
         else cellKey r c \<notin> fst ` set result))"
proof -
  from result_keys [OF assms, of minesRemaining] obtain result where r:
    "calculateProbabilities b minesRemaining = Some result" "distinct (map fst result)"
    "fst ` set result = {cellKey r c | r c. unknownAt b r c}"
    by (auto simp: keysOf_def)
  have "length (filter (\<lambda>entry. fst entry = cellKey r c) result) = 1"
    if "r < rows b" "c < cols b" "\<not> isRevealed (board_cells b ! r ! c)"
      "\<not> isFlagged (board_cells b ! r ! c)" for r c
  proof -
    from that have "cellKey r c \<in> fst ` set result"
      unfolding r(3) unknownAt_def by blast
    with r(2) show ?thesis by (rule one_entry_per_key)
  qed
  moreover have "cellKey r c \<notin> fst ` set result"
    if "\<not> (\<not> isRevealed (board_cells b ! r ! c) \<and> \<not> isFlagged (board_cells b ! r ! c))" for r c
  proof
    assume "cellKey r c \<in> fst ` set result"
    then obtain r' c' where "cellKey r c = cellKey r' c'" "unknownAt b r' c'"
      unfolding r(3) by blast
    with that show False
      by (auto simp: cellKey_inject unknownAt_def)
  qed
  ultimately show ?thesis
    using r by auto
qed

theorem result_covers_unknown_cells_witness:
  "wf_board board4x4 \<and>
   (\<exists>result. calculateProbabilities board4x4 2 = Some result \<and>
     distinct (map fst result) \<and>
     fst ` set result = {cellKey r c | r c. unknownAt board4x4 r c} \<and>
     (1::nat) < rows board4x4 \<and> (2::nat) < cols board4x4 \<and>
     \<not> isRevealed (board_cells board4x4 ! 1 ! 2) \<and> \<not> isFlagged (board_cells board4x4 ! 1 ! 2) \<and>
     length (filter (\<lambda>entry. fst entry = cellKey 1 2) result) = 1 \<and>
     (0::nat) < rows board4x4 \<and> (0::nat) < cols board4x4 \<and>
     isRevealed (board_cells board4x4 ! 0 ! 0) \<and> cellKey 0 0 \<notin> fst ` set result)"
proof -
  have wf: "wf_board board4x4"
    by code_simp
  have c12: "(1::nat) < rows board4x4 \<and> (2::nat) < cols board4x4 \<and>
     \<not> isRevealed (board_cells board4x4 ! 1 ! 2) \<and> \<not> isFlagged (board_cells board4x4 ! 1 ! 2)"
    by code_simp
  have c00: "(0::nat) < rows board4x4 \<and> (0::nat) < cols board4x4 \<and>
     isRevealed (board_cells board4x4 ! 0 ! 0)"
    by code_simp
  from result_covers_unknown_cells [OF wf, of 2] obtain result where r:
    "calculateProbabilities board4x4 2 = Some result" "distinct (map fst result)"
    "fst ` set result = {cellKey r c | r c. unknownAt board4x4 r c}"
    "\<forall>r c. r < rows board4x4 \<and> c < cols board4x4 \<longrightarrow>
        (if \<not> isRevealed (board_cells board4x4 ! r ! c) \<and> \<not> isFlagged (board_cells board4x4 ! r ! c)
         then length (filter (\<lambda>entry. fst entry = cellKey r c) result) = 1
         else cellKey r c \<notin> fst ` set result)"
    by blast
  from r(4) [rule_format, of 1 2] c12
  have "length (filter (\<lambda>entry. fst entry = cellKey 1 2) result) = 1"
    by simp
  moreover from r(4) [rule_format, of 0 0] c00 have "cellKey 0 0 \<notin> fst ` set result"
    by simp
  ultimately show ?thesis
    using wf c12 c00 r(1,2,3) by blast
qed


section \<open>getDefinitiveCells\<close>

lemma fold_definitiveStep:
  "fold definitiveStep probabilities (safe0, mines0) =
     (safe0 @ map (\<lambda>entry. parseKey (fst entry)) (filter (\<lambda>entry. snd entry = 0) probabilities),
      mines0 @ map (\<lambda>entry. parseKey (fst entry)) (filter (\<lambda>entry. snd entry = 1) probabilities))"
  by (induction probabilities arbitrary: safe0 mines0) (auto simp: definitiveStep_def)

text \<open>
  Claim C10. Parsing the key of the cell \<open>(r, c)\<close> as getDefinitiveCells does gives back
  \<open>(r, c)\<close>; and on a board as the class builds it, getDefinitiveCells returns two lists in
  which every pair is the coordinate pair of an unrevealed, unflagged cell of the board
  whose computed probability is exactly 0 (in the list of safe cells) or exactly 1 (in the
  list of mines).
\<close>

theorem definitive_cells_are_board_cells:
  assumes "wf_board b"
  shows "parseKey (cellKey r c) = (Some r, Some c) \<and>
    (\<exists>safe mineCells result.
       getDefinitiveCells b minesRemaining = Some (safe, mineCells) \<and>
       calculateProbabilities b minesRemaining = Some result \<and>
       (\<forall>p \<in> set safe. \<exists>r' c'. p = (Some r', Some c') \<and> unknownAt b r' c' \<and>
            map_of result (cellKey r' c') = Some 0) \<and>
       (\<forall>p \<in> set mineCells. \<exists>r' c'. p = (Some r', Some c') \<and> unknownAt b r' c' \<and>
            map_of result (cellKey r' c') = Some 1))"
proof -
  from result_keys [OF assms, of minesRemaining] obtain result where res:
    "calculateProbabilities b minesRemaining = Some result" "distinct (map fst result)"
    "keysOf result = {cellKey r c | r c. unknownAt b r c}"
    by blast
  define safe where "safe = map (\<lambda>entry. parseKey (fst entry)) (filter (\<lambda>entry. snd entry = 0) result)"
  define mineCells where
    "mineCells = map (\<lambda>entry. parseKey (fst entry)) (filter (\<lambda>entry. snd entry = 1) result)"
  have g: "getDefinitiveCells b minesRemaining = Some (safe, mineCells)"
    by (simp add: getDefinitiveCells_def res(1) fold_definitiveStep safe_def mineCells_def)
  have entry: "\<exists>r' c'. parseKey (fst entry) = (Some r', Some c') \<and> unknownAt b r' c' \<and>
      map_of result (cellKey r' c') = Some (snd entry)" if "entry \<in> set result" for entry
  proof -
    from that have "fst entry \<in> keysOf result"
      by (simp add: keysOf_def)
    with res(3) obtain r' c' where k: "fst entry = cellKey r' c'" "unknownAt b r' c'"
      by blast
    from that res(2) have "map_of result (fst entry) = Some (snd entry)"
      by simp
    with k show ?thesis
      by (auto simp: parseKey_cellKey)
  qed
  have "\<forall>p \<in> set safe. \<exists>r' c'. p = (Some r', Some c') \<and> unknownAt b r' c' \<and>
            map_of result (cellKey r' c') = Some 0"
    unfolding safe_def using entry by fastforce
  moreover have "\<forall>p \<in> set mineCells. \<exists>r' c'. p = (Some r', Some c') \<and> unknownAt b r' c' \<and>
            map_of result (cellKey r' c') = Some 1"
    unfolding mineCells_def using entry by fastforce
  ultimately show ?thesis
    using g res(1) parseKey_cellKey by blast
qed

theorem definitive_cells_are_board_cells_witness:
  "wf_board board4x4 \<and>
   getDefinitiveCells board4x4 2 = Some ([(Some 2, Some 3)], [(Some 3, Some 0)]) \<and>
   parseKey (cellKey 2 3) = (Some 2, Some 3) \<and>
   (\<exists>result. calculateProbabilities board4x4 2 = Some result \<and>
      unknownAt board4x4 2 3 \<and> map_of result (cellKey 2 3) = Some 0 \<and>
      unknownAt board4x4 3 0 \<and> map_of result (cellKey 3 0) = Some 1)"
proof -
  have wf: "wf_board board4x4"
    by code_simp
  have v: "getDefinitiveCells board4x4 2 = Some ([(Some 2, Some 3)], [(Some 3, Some 0)])"
    by code_simp
  from definitive_cells_are_board_cells [OF wf, of 2 3 2] v obtain result where r:
    "parseKey (cellKey 2 3) = (Some 2, Some 3)"
    "calculateProbabilities board4x4 2 = Some result"
    "\<forall>p \<in> set [(Some 2, Some (3::nat))]. \<exists>r' c'. p = (Some r', Some c') \<and> unknownAt board4x4 r' c' \<and>
            map_of result (cellKey r' c') = Some 0"
    "\<forall>p \<in> set [(Some 3, Some (0::nat))]. \<exists>r' c'. p = (Some r', Some c') \<and> unknownAt board4x4 r' c' \<and>
            map_of result (cellKey r' c') = Some 1"
    by auto
  from r(3) have "unknownAt board4x4 2 3 \<and> map_of result (cellKey 2 3) = Some 0"
    by auto
  moreover from r(4) have "unknownAt board4x4 3 0 \<and> map_of result (cellKey 3 0) = Some 1"
    by auto
  ultimately show ?thesis
    using wf v r(1,2) by blast
qed


section \<open>solveConstraints enumerates the assignments\<close>

lemma maskMines_bit:
  "maskMines cs msk = map (\<lambda>i. cs ! i) (filter (\<lambda>i. bit msk i) [0..<length cs])"
proof -
  have "(msk AND push_bit i 1 \<noteq> 0) = bit msk i" for i
    by (rule bit_iff_and_push_bit_not_eq_0 [symmetric])
  then show ?thesis
    unfolding maskMines_def by presburger
qed

lemma maskMines_Cons:
  "maskMines (x # xs) msk = (if odd msk then [x] else []) @ maskMines xs (msk div 2)"
proof -
  have up: "[0..<length (x # xs)] = 0 # map Suc [0..<length xs]"
    by (simp add: upt_conv_Cons map_Suc_upt del: upt_Suc)
  have "filter (\<lambda>i. bit msk i) (map Suc [0..<length xs]) =
      map Suc (filter (\<lambda>i. bit (msk div 2) i) [0..<length xs])"
    by (simp add: filter_map comp_def bit_Suc)
  then show ?thesis
    unfolding maskMines_bit up
    by (simp add: bit_0 comp_def)
qed

lemma maskMines_Nil [simp]: "maskMines [] msk = []"
  by (simp add: maskMines_def)

text \<open>The masks below \<open>2 * N\<close> are the doubles of the masks below \<open>N\<close> and their successors.\<close>

lemma mset_masks_double:
  "mset (map f [0..2 * int N - 1]) =
     mset (map (\<lambda>m. f (2 * m)) [0..int N - 1]) + mset (map (\<lambda>m. f (2 * m + 1)) [0..int N - 1])"
proof (induction N)
  case 0
  show ?case by simp
next
  case (Suc N)
  have a: "[0..2 * int (Suc N) - 1] = [0..2 * int N - 1] @ [2 * int N, 2 * int N + 1]"
  proof -
    have e: "2 * int (Suc N) - 1 = 2 * int N + 1" by simp
    have "[0..2 * int N + 1] = [0..2 * int N + 1 - 1] @ [2 * int N + 1]"
      by (rule upto_rec2) simp
    then have "[0..2 * int N + 1] = [0..2 * int N] @ [2 * int N + 1]"
      by simp
    moreover have "[0..2 * int N] = [0..2 * int N - 1] @ [2 * int N]"
      by (rule upto_rec2) simp
    ultimately show ?thesis unfolding e by simp
  qed
  have b: "[0..int (Suc N) - 1] = [0..int N - 1] @ [int N]"
    using upto_rec2 [of 0 "int N"] by simp
  show ?case
    unfolding a b using Suc.IH by simp
qed

lemma mset_maskMines_subseqs:
  "mset (map (maskMines cs) [0..2 ^ length cs - 1]) = mset (subseqs cs)"
proof (induction cs)
  case Nil
  show ?case by simp
next
  case (Cons x xs)
  have p: "(2::int) ^ length (x # xs) - 1 = 2 * int (2 ^ length xs) - 1"
    by simp
  have q: "int (2 ^ length xs) - 1 = 2 ^ length xs - 1"
    by simp
  have "mset (map (maskMines (x # xs)) [0..2 ^ length (x # xs) - 1]) =
      mset (map (maskMines xs) [0..2 ^ length xs - 1]) +
      mset (map (\<lambda>m. x # maskMines xs m) [0..2 ^ length xs - 1])"
    unfolding p mset_masks_double q
    by (simp add: maskMines_Cons)
  also have "mset (map (\<lambda>m. x # maskMines xs m) [0..2 ^ length xs - 1]) =
      image_mset (Cons x) (mset (map (maskMines xs) [0..2 ^ length xs - 1]))"
    by (simp add: multiset.map_comp comp_def)
  finally have "mset (map (maskMines (x # xs)) [0..2 ^ length (x # xs) - 1]) =
      mset (subseqs xs) + image_mset (Cons x) (mset (subseqs xs))"
    unfolding Cons.IH .
  then show ?case
    by (simp add: Let_def)
qed

text \<open>The loop collects every valid assignment unless the cap stops it.\<close>

lemma solveLoop_uncapped:
  assumes "int (length sols) +
      int (length (filter (validAssignment constraints) (map (maskMines cs) [msk..M - 1])))
        \<le> maxSolutions"
  shows "solveLoop cs constraints M msk sols =
           sols @ filter (validAssignment constraints) (map (maskMines cs) [msk..M - 1])"
  using assms
proof (induction cs constraints M msk sols rule: solveLoop.induct)
  case (1 cs constraints M msk sols)
  show ?case
  proof (cases "msk < M")
    case False
    then show ?thesis
      by (subst solveLoop.simps) simp
  next
    case True
    then have up: "[msk..M - 1] = msk # [msk + 1..M - 1]"
      by (simp add: upto_rec1 [of msk "M - 1"])
    show ?thesis
    proof (cases "int (length sols) \<ge> maxSolutions")
      case full: True
      with "1.prems" have
        "length (filter (validAssignment constraints) (map (maskMines cs) [msk..M - 1])) = 0"
        by linarith
      then have "filter (validAssignment constraints) (map (maskMines cs) [msk..M - 1]) = []"
        by (simp only: length_0_conv)
      with True full show ?thesis
        by (subst solveLoop.simps) simp
    next
      case room: False
      let ?sols' = "if validAssignment constraints (maskMines cs msk)
                    then sols @ [maskMines cs msk] else sols"
      have "int (length ?sols') +
          int (length (filter (validAssignment constraints) (map (maskMines cs) [msk + 1..M - 1])))
            \<le> maxSolutions"
        using "1.prems" unfolding up by (auto simp: filter_map comp_def)
      with "1.IH" True room have
        "solveLoop cs constraints M (msk + 1) ?sols' =
           ?sols' @ filter (validAssignment constraints) (map (maskMines cs) [msk + 1..M - 1])"
        by simp
      with True room show ?thesis
        unfolding up by (subst solveLoop.simps) simp
    qed
  qed
qed


lemma validAssignment_satisfies:
  assumes "\<forall>c \<in> set grp. distinct (cells c)"
  shows "validAssignment grp s \<longleftrightarrow> satisfies grp (set s)"
proof -
  have "length (filter (\<lambda>x. x \<in> set s) (cells c)) = card (set (cells c) \<inter> set s)"
    if "c \<in> set grp" for c
  proof -
    from that assms have "distinct (cells c)" by blast
    then have "length (filter (\<lambda>x. x \<in> set s) (cells c)) = card ({x. x \<in> set s} \<inter> set (cells c))"
      by (rule distinct_length_filter)
    then show ?thesis by (simp add: Int_commute)
  qed
  then show ?thesis
    by (simp add: validAssignment_def satisfies_def list_all_iff)
qed

lemma count_subseqs:
  assumes "distinct cs"
  shows "length (filter (\<lambda>s. Q (set s)) (subseqs cs)) = card {S. S \<subseteq> set cs \<and> Q S}"
proof -
  let ?L = "filter (\<lambda>s. Q (set s)) (subseqs cs)"
  have "map set ?L = filter Q (map set (subseqs cs))"
    by (simp add: filter_map comp_def)
  moreover have "distinct (map set (subseqs cs))"
    using assms by (rule distinct_set_subseqs)
  ultimately have d: "distinct (map set ?L)"
    by simp
  have "set (map set ?L) = {S. S \<in> set ` set (subseqs cs) \<and> Q S}"
    by auto
  also have "\<dots> = {S. S \<subseteq> set cs \<and> Q S}"
    unfolding subseqs_powset by auto
  finally have "card {S. S \<subseteq> set cs \<and> Q S} = card (set (map set ?L))"
    by simp
  also have "\<dots> = length (map set ?L)"
    using d by (rule distinct_card)
  finally show ?thesis by simp
qed

lemma solveConstraints_exact:
  assumes "distinct cs" and "length cs \<le> 20" and "set cs = componentCells grp"
    and "\<forall>c \<in> set grp. distinct (cells c)"
    and "card (satisfying grp) \<le> 10000"
  shows "length (solveConstraints cs grp) = card (satisfying grp)"
    and "length (filter (\<lambda>s. key \<in> set s) (solveConstraints cs grp)) =
           card {S \<in> satisfying grp. key \<in> S}"
proof -
  let ?masks = "[0..2 ^ length cs - 1] :: int list"
  let ?all = "filter (validAssignment grp) (map (maskMines cs) ?masks)"
  have m: "mset ?all = mset (filter (validAssignment grp) (subseqs cs))"
    by (simp only: mset_filter mset_maskMines_subseqs)
  have valid: "validAssignment grp s \<longleftrightarrow> satisfies grp (set s)" for s
    using assms(4) by (rule validAssignment_satisfies)
  have total: "length ?all = card (satisfying grp)"
  proof -
    have "length ?all = length (filter (validAssignment grp) (subseqs cs))"
      using m by (rule mset_eq_length)
    also have "\<dots> = card {S. S \<subseteq> set cs \<and> satisfies grp S}"
      unfolding valid using assms(1) by (rule count_subseqs)
    finally show ?thesis
      by (simp add: satisfying_def assms(3))
  qed
  have pow: "(2::int) ^ length cs \<le> 1048576"
  proof -
    have "(2::int) ^ length cs \<le> 2 ^ 20"
      using assms(2) by (intro power_increasing) simp_all
    then show ?thesis by simp
  qed
  have "int (length ([] :: string list list)) + int (length ?all) \<le> maxSolutions"
    using total assms(5) by (simp add: maxSolutions_def)
  from solveLoop_uncapped [OF this] pow have sol: "solveConstraints cs grp = ?all"
    by (simp add: solveConstraints_def Let_def)
  show "length (solveConstraints cs grp) = card (satisfying grp)"
    unfolding sol by (rule total)
  have "mset (filter (\<lambda>s. key \<in> set s) ?all) =
      mset (filter (\<lambda>s. key \<in> set s) (filter (validAssignment grp) (subseqs cs)))"
    using m by (simp only: mset_filter)
  then have "length (filter (\<lambda>s. key \<in> set s) ?all) =
      length (filter (\<lambda>s. key \<in> set s) (filter (validAssignment grp) (subseqs cs)))"
    by (rule mset_eq_length)
  also have "\<dots> = length (filter (\<lambda>s. satisfies grp (set s) \<and> key \<in> set s) (subseqs cs))"
    by (simp add: valid conj_commute)
  also have "\<dots> = card {S. S \<subseteq> set cs \<and> (satisfies grp S \<and> key \<in> S)}"
    using assms(1) by (rule count_subseqs)
  also have "\<dots> = card {S \<in> satisfying grp. key \<in> S}"
    by (rule arg_cong [where f = card]) (auto simp: satisfying_def assms(3))
  finally show "length (filter (\<lambda>s. key \<in> set s) (solveConstraints cs grp)) =
           card {S \<in> satisfying grp. key \<in> S}"
    unfolding sol .
qed


section \<open>No constraint lists a cell twice\<close>

lemma neighbor_keys_distinct:
  assumes "wf_board b"
  shows "distinct (map (\<lambda>n. cellKey (row n) (col n))
           (filter P (getNeighbors b (int r) (int c))))"
proof -
  let ?valid = "filter (\<lambda>(dr, dc). isValidCell b (int r + dr) (int c + dc)) directions"
  let ?at = "\<lambda>(dr, dc). board_cells b ! nat (int r + dr) ! nat (int c + dc)"
  have key: "cellKey (row (?at d)) (col (?at d)) =
      cellKey (nat (int r + fst d)) (nat (int c + snd d))" if "d \<in> set ?valid" for d
  proof -
    from that have "nat (int r + fst d) < rows b" "nat (int c + snd d) < cols b"
      by (auto simp: isValidCell_def)
    from wf_boardD [OF assms this] show ?thesis
      by (simp add: split_beta)
  qed
  have "distinct directions"
    by (simp add: directions_def)
  then have dv: "distinct ?valid" by simp
  have inj: "inj_on (\<lambda>d. cellKey (row (?at d)) (col (?at d))) (set ?valid)"
  proof (rule inj_onI)
    fix d d' assume d: "d \<in> set ?valid" "d' \<in> set ?valid"
      and eq: "cellKey (row (?at d)) (col (?at d)) = cellKey (row (?at d')) (col (?at d'))"
    from eq have "nat (int r + fst d) = nat (int r + fst d')" "nat (int c + snd d) = nat (int c + snd d')"
      unfolding key [OF d(1)] key [OF d(2)] cellKey_inject by simp_all
    moreover from d have "int r + fst d \<ge> 0" "int r + fst d' \<ge> 0" "int c + snd d \<ge> 0"
      "int c + snd d' \<ge> 0"
      by (auto simp: isValidCell_def)
    ultimately show "d = d'"
      by (auto simp: prod_eq_iff)
  qed
  have "distinct (map (\<lambda>d. cellKey (row (?at d)) (col (?at d))) ?valid)"
    using dv inj by (simp add: distinct_map)
  then have "distinct (map (\<lambda>n. cellKey (row n) (col n)) (getNeighbors b (int r) (int c)))"
    by (simp add: getNeighbors_def comp_def)
  then show ?thesis
    by (rule distinct_map_filter)
qed

lemma buildConstraints_distinct:
  assumes "wf_board b"
  shows "\<forall>d \<in> set (snd (buildConstraints b)). distinct (cells d)"
proof -
  have step: "\<forall>d \<in> set (snd (scanCell b r c st)). distinct (cells d)"
    if "\<forall>d \<in> set (snd st). distinct (cells d)" for r c st
    using that neighbor_keys_distinct [OF assms]
    by (auto simp: scanCell_def Let_def split: option.splits)
  show ?thesis
    unfolding buildConstraints_def
    by (rule fold_invariant, rule fold_invariant) (simp_all add: step)
qed

lemma updateConstraints_distinct:
  "\<forall>c \<in> set cs. distinct (cells c) \<Longrightarrow>
   \<forall>c \<in> set (fst (updateConstraints cs k)). distinct (cells c)"
proof (induction cs arbitrary: k)
  case Nil
  then show ?case by simp
next
  case (Cons c cs)
  have "distinct (cells (fst (updateConstraint c k)))"
    using Cons.prems by (simp add: updateConstraint_cells)
  moreover have "\<forall>c \<in> set (fst (updateConstraints cs (snd (updateConstraint c k)))). distinct (cells c)"
    using Cons.prems by (intro Cons.IH) simp
  ultimately show ?case
    by (simp add: split_beta)
qed

lemma subsetAnalysis_distinct:
  assumes "\<forall>c \<in> set cs. distinct (cells c)"
  shows "\<forall>d \<in> set (snd (subsetAnalysis cs k)). distinct (cells d)"
proof -
  let ?Inv = "\<lambda>st :: Known \<times> Constraint list. \<forall>d \<in> set (snd st). distinct (cells d)"
  have pair: "?Inv (comparePair cs i j st)" if "j \<in> set [0..<length cs]" "?Inv st" for i j st
  proof -
    from that(1) assms have "distinct (cells (cs ! j))" by simp
    with that(2) show ?thesis
      by (auto simp: comparePair_def Let_def)
  qed
  have row: "?Inv (fold (comparePair cs i) [0..<length cs] st)" if "?Inv st" for i st
    using pair that by (rule fold_invariant)
  have "?Inv (fold (\<lambda>i st. if length (cells (cs ! i)) = 0 then st
                  else fold (comparePair cs i) [0..<length cs] st)
       [0..<maxConstraintsToCompare cs] (k, []))"
  proof (rule fold_invariant [where Inv = ?Inv])
    show "?Inv (k, [])" by simp
    show "?Inv (if length (cells (cs ! i)) = 0 then st
        else fold (comparePair cs i) [0..<length cs] st)" if "?Inv st" for i st
      using that row [OF that, of i] by (simp split: if_splits)
  qed
  then show ?thesis
    by (simp add: subsetAnalysis_def)
qed

lemma propagationPass_distinct:
  assumes "\<forall>c \<in> set (fst st). distinct (cells c)"
  shows "\<forall>c \<in> set (fst (propagationPass st)). distinct (cells c)"
proof -
  have "\<forall>c \<in> set (fst (updateConstraints (fst st) (snd st))). distinct (cells c)"
    using assms by (rule updateConstraints_distinct)
  moreover from this have
    "\<forall>d \<in> set (snd (subsetAnalysis (fst (updateConstraints (fst st) (snd st)))
            (snd (updateConstraints (fst st) (snd st))))). distinct (cells d)"
    by (rule subsetAnalysis_distinct)
  ultimately show ?thesis
    unfolding propagationPass_constraints by auto
qed

lemma propagated_distinct:
  assumes "wf_board b"
  shows "\<forall>c \<in> set (fst (propagated b)). distinct (cells c)"
proof -
  have "\<forall>c \<in> set (fst (passes n b)). distinct (cells c)" for n
  proof (induction n)
    case 0
    show ?case
      using buildConstraints_distinct [OF assms] by (simp add: passes_0)
  next
    case (Suc n)
    then have "\<forall>c \<in> set (fst (fst (passes n b), (snd (passes n b))\<lparr>changed := False\<rparr>)).
        distinct (cells c)"
      by simp
    then show ?case
      unfolding passes_Suc loopBody_def by (rule propagationPass_distinct)
  qed
  with propagated_passes [of b] show ?thesis by auto
qed


section \<open>What the solver leaves in the result\<close>

lemma map_of_fold_update:
  "map_of (fold (\<lambda>key res. AList.update key (f key) res) keys result) key =
     (if key \<in> set keys then Some (f key) else map_of result key)"
proof (induction keys arbitrary: result rule: rev_induct)
  case Nil
  show ?case by simp
next
  case (snoc k keys)
  show ?case
    by (simp add: snoc.IH AList.update_conv')
qed

lemma map_of_fold_update_missing:
  "map_of (fold (\<lambda>k res. if map_of res k = None then AList.update k (g k) res else res)
      keys result) key =
     (case map_of result key of
        Some v \<Rightarrow> Some v
      | None \<Rightarrow> if key \<in> set keys then Some (g key) else None)"
proof (induction keys arbitrary: result)
  case Nil
  show ?case by (simp split: option.splits)
next
  case (Cons k keys)
  show ?case
    by (auto simp: Cons.IH AList.update_conv' split: option.splits)
qed

lemma groupCellArray_componentCells: "set (groupCellArray grp) = componentCells grp"
  by (simp add: groupCellArray_set componentCells_def)

lemma solveGroup_frame:
  "key \<notin> componentCells grp \<Longrightarrow> map_of (solveGroup grp result) key = map_of result key"
  unfolding groupCellArray_componentCells [symmetric] solveGroup_def Let_def
    exactProbabilities_def averageProbabilities_def split_beta
  by (auto simp: map_of_fold_update map_of_fold_update_missing split: option.splits)

lemma solveGroup_small:
  assumes "key \<in> componentCells grp" and "card (componentCells grp) \<le> 20"
  shows "map_of (solveGroup grp result) key =
     (let solutions = solveConstraints (groupCellArray grp) grp
      in if length solutions > 0
         then Some (rat_of_nat (length (filter (\<lambda>s. key \<in> set s) solutions)) /
                    rat_of_nat (length solutions))
         else Some (1 / 2))"
proof -
  let ?cellArray = "groupCellArray grp"
  let ?solutions = "solveConstraints ?cellArray grp"
  have key: "key \<in> set ?cellArray"
    using assms(1) by (simp add: groupCellArray_componentCells)
  have "length ?cellArray = card (componentCells grp)"
    using distinct_card [OF groupCellArray_distinct, of grp]
    by (simp add: groupCellArray_componentCells)
  moreover from key have "length ?cellArray > 0"
    by (cases ?cellArray) auto
  ultimately have len: "length ?cellArray > 0" "length ?cellArray \<le> 20"
    using assms(2) by auto
  have "\<forall>s \<in> set ?solutions. distinct s"
  proof
    fix s assume "s \<in> set ?solutions"
    then obtain m where "s = maskMines ?cellArray m"
      using solveConstraints_solutions by blast
    then show "distinct s"
      by (simp add: distinct_maskMines groupCellArray_distinct)
  qed
  from lookupCount_countMines_distinct [OF this key]
  have count: "lookupCount (countMines ?cellArray ?solutions) key =
      length (filter (\<lambda>s. key \<in> set s) ?solutions)" .
  show ?thesis
    using len key
    by (simp add: solveGroup_def Let_def exactProbabilities_def map_of_fold_update count)
qed

lemma fillRemaining_keeps:
  "map_of result key = Some v \<Longrightarrow>
   map_of (fillRemaining unrevealedCells frontierCells k minesRemaining result) key = Some v"
  unfolding fillRemaining_def Let_def
  by (auto simp: map_of_fold_update_missing map_of_fold_update keysOf_map_of
      split: option.splits)

lemma fold_solveGroup_frame:
  "\<forall>g \<in> set groups. key \<notin> componentCells g \<Longrightarrow>
   map_of (fold solveGroup groups result) key = map_of result key"
  by (induction groups arbitrary: result) (simp_all add: solveGroup_frame)

lemma partition_groups_disjoint:
  assumes "partitionConstraints cs = Some groups" and "groups = pre @ grp # post"
    and "g \<in> set post"
  shows "componentCells g \<inter> componentCells grp = {}"
proof -
  from partition_roots [of cs] assms(1) obtain rt where
    g: "groups = map (map (\<lambda>i. cs ! i)) (indexGroups rt (length cs))" and
    rt: "\<forall>i < length cs. \<forall>j < length cs. rt i = rt j \<longleftrightarrow> (i, j) \<in> (shareRel cs)\<^sup>*"
    by auto
  let ?gs = "indexGroups rt (length cs)"
  from g assms(2) have "map (map (\<lambda>i. cs ! i)) ?gs = pre @ grp # post"
    by simp
  from this [THEN map_eq_append_conv [THEN iffD1]] obtain ipre irest where
    s1: "?gs = ipre @ irest" "map (map (\<lambda>i. cs ! i)) irest = grp # post"
    by metis
  from s1(2) [THEN map_eq_Cons_conv [THEN iffD1]] obtain ig ipost where
    s2: "irest = ig # ipost" "grp = map (\<lambda>i. cs ! i) ig" "post = map (map (\<lambda>i. cs ! i)) ipost"
    by metis
  from s1(1) s2 have
    split: "?gs = ipre @ ig # ipost" "grp = map (\<lambda>i. cs ! i) ig" "post = map (map (\<lambda>i. cs ! i)) ipost"
    by simp_all
  from assms(3) split(3) obtain jg where jg: "jg \<in> set ipost" "g = map (\<lambda>i. cs ! i) jg"
    by auto
  have "distinct (concat (ipre @ ig # ipost))"
    using indexGroups_partition(1) [of rt "length cs"] unfolding split(1) .
  then have "set ig \<inter> \<Union> (set ` set ipost) = {}"
    by simp
  with jg(1) have dis: "set ig \<inter> set jg = {}"
    by blast
  have bound: "i < length cs" if "i \<in> set ig \<or> i \<in> set jg" for i
  proof -
    from that jg(1) have "i \<in> set (concat ?gs)"
      unfolding split(1) by auto
    then show ?thesis unfolding indexGroups_partition(2) by simp
  qed
  show ?thesis
  proof (rule ccontr)
    assume "componentCells g \<inter> componentCells grp \<noteq> {}"
    then obtain key i j where k: "i \<in> set ig" "j \<in> set jg"
      "key \<in> set (cells (cs ! i))" "key \<in> set (cells (cs ! j))"
      unfolding componentCells_def split(2) jg(2) by auto
    then have "(i, j) \<in> shareRel cs"
      using bound by (auto simp: shareRel_def)
    then have "(i, j) \<in> (shareRel cs)\<^sup>*" ..
    moreover have "i < length cs" "j < length cs"
      using bound k(1,2) by simp_all
    ultimately have "rt i = rt j"
      using rt by blast
    then have rji: "rt j = rt i" by simp
    have "ig \<in> set ?gs" unfolding split(1) by simp
    from indexGroups_classes [OF this k(1)] have "set ig = {j. j < length cs \<and> rt j = rt i}" .
    with rji \<open>j < length cs\<close> have "j \<in> set ig"
      by blast
    with k(2) dis show False by blast
  qed
qed


lemma card_satisfying:
  "card (satisfying grp) =
     length (filter (\<lambda>s. satisfies grp (set s)) (subseqs (groupCellArray grp)))"
  "card {S \<in> satisfying grp. key \<in> S} =
     length (filter (\<lambda>s. satisfies grp (set s) \<and> key \<in> set s) (subseqs (groupCellArray grp)))"
proof -
  have "length (filter (\<lambda>s. satisfies grp (set s)) (subseqs (groupCellArray grp))) =
      card {S. S \<subseteq> set (groupCellArray grp) \<and> satisfies grp S}"
    using groupCellArray_distinct by (rule count_subseqs)
  then show "card (satisfying grp) =
     length (filter (\<lambda>s. satisfies grp (set s)) (subseqs (groupCellArray grp)))"
    by (simp add: satisfying_def groupCellArray_componentCells)
  have "length (filter (\<lambda>s. satisfies grp (set s) \<and> key \<in> set s) (subseqs (groupCellArray grp))) =
      card {S. S \<subseteq> set (groupCellArray grp) \<and> (satisfies grp S \<and> key \<in> S)}"
    using groupCellArray_distinct by (rule count_subseqs)
  moreover have "{S. S \<subseteq> set (groupCellArray grp) \<and> (satisfies grp S \<and> key \<in> S)} =
      {S \<in> satisfying grp. key \<in> S}"
    by (auto simp: satisfying_def groupCellArray_componentCells)
  ultimately show "card {S \<in> satisfying grp. key \<in> S} =
     length (filter (\<lambda>s. satisfies grp (set s) \<and> key \<in> set s) (subseqs (groupCellArray grp)))"
    by simp
qed

lemma component_result:
  assumes "partitionConstraints (activeConstraints b) = Some groups" and "grp \<in> set groups"
    and "key \<in> componentCells grp" and "card (componentCells grp) \<le> 20"
  shows "\<exists>result. calculateProbabilities b minesRemaining = Some result \<and>
    map_of result key =
     (let solutions = solveConstraints (groupCellArray grp) grp
      in if length solutions > 0
         then Some (rat_of_nat (length (filter (\<lambda>s. key \<in> set s) solutions)) /
                    rat_of_nat (length solutions))
         else Some (1 / 2))"
proof -
  let ?k = "snd (propagated b)"
  let ?R0 = "recordDefinitive ?k"
  from assms(2) obtain pre post where split: "groups = pre @ grp # post"
    by (auto simp: in_set_conv_decomp)
  have res: "calculateProbabilities b minesRemaining =
      Some (fillRemaining (fst (buildConstraints b))
               (collectFrontier ?k (activeConstraints b)) ?k minesRemaining
               (fold solveGroup groups ?R0))"
    using assms(1) by (simp add: calculateProbabilities_def Let_def)
  have "\<forall>g \<in> set post. key \<notin> componentCells g"
    using partition_groups_disjoint [OF assms(1) split] assms(3) by blast
  then have "map_of (fold solveGroup groups ?R0) key =
      map_of (solveGroup grp (fold solveGroup pre ?R0)) key"
    unfolding split by (simp add: fold_solveGroup_frame)
  also note solveGroup_small [OF assms(3,4)]
  finally have m: "map_of (fold solveGroup groups ?R0) key =
     (let solutions = solveConstraints (groupCellArray grp) grp
      in if length solutions > 0
         then Some (rat_of_nat (length (filter (\<lambda>s. key \<in> set s) solutions)) /
                    rat_of_nat (length solutions))
         else Some (1 / 2))" .
  define v where "v = (let solutions = solveConstraints (groupCellArray grp) grp
      in if length solutions > 0
         then rat_of_nat (length (filter (\<lambda>s. key \<in> set s) solutions)) /
              rat_of_nat (length solutions)
         else 1 / 2)"
  from m have "map_of (fold solveGroup groups ?R0) key = Some v"
    by (simp add: v_def Let_def)
  from fillRemaining_keeps [OF this] res m show ?thesis
    by (simp add: v_def Let_def)
qed

lemma active_distinct:
  assumes "wf_board b" and "partitionConstraints (activeConstraints b) = Some groups"
    and "grp \<in> set groups"
  shows "\<forall>c \<in> set grp. distinct (cells c)"
proof -
  from partition_groups_subset [OF assms(2)] assms(3) have "set grp \<subseteq> set (activeConstraints b)"
    by blast
  with propagated_distinct [OF assms(1)] show ?thesis
    by (auto simp: activeConstraints_def)
qed

text \<open>
  Claim C2. On a board as the class builds it, let \<open>grp\<close> be a component: one of the groups
  \<open>partitionConstraints\<close> returns for the constraints that are left with cells after the
  propagation. If its cell set has at most 20 cells (it has at least one) and between 1
  and 10000 sets of its cells satisfy it, then calculateProbabilities maps every cell of
  the component to the number of satisfying sets that hold the cell divided by the number
  of satisfying sets.
\<close>

theorem exact_component_probability:
  assumes "wf_board b"
    and "partitionConstraints (activeConstraints b) = Some groups" and "grp \<in> set groups"
    and "0 < card (componentCells grp)" and "card (componentCells grp) \<le> 20"
    and "1 \<le> card (satisfying grp)" and "card (satisfying grp) \<le> 10000"
    and "key \<in> componentCells grp"
  shows "\<exists>result. calculateProbabilities b minesRemaining = Some result \<and>
    map_of result key =
      Some (rat_of_nat (card {S \<in> satisfying grp. key \<in> S}) / rat_of_nat (card (satisfying grp)))"
proof -
  note d = active_distinct [OF assms(1-3)]
  have len: "length (groupCellArray grp) \<le> 20"
    using distinct_card [OF groupCellArray_distinct, of grp] assms(5)
    by (simp add: groupCellArray_componentCells)
  note exact = solveConstraints_exact [OF groupCellArray_distinct len
      groupCellArray_componentCells d assms(7)]
  from component_result [OF assms(2,3,8,5), of minesRemaining] assms(6) show ?thesis
    unfolding Let_def exact by simp
qed

theorem exact_component_probability_witness:
  "wf_board board3x2 \<and>
   partitionConstraints (activeConstraints board3x2) =
     Some [[\<lparr>cells = [''1,0'', ''1,1''], mines = 1\<rparr>, \<lparr>cells = [''1,0'', ''1,1''], mines = 1\<rparr>]] \<and>
   card (componentCells [\<lparr>cells = [''1,0'', ''1,1''], mines = 1\<rparr>,
                         \<lparr>cells = [''1,0'', ''1,1''], mines = 1\<rparr>]) = 2 \<and>
   card (satisfying [\<lparr>cells = [''1,0'', ''1,1''], mines = 1\<rparr>,
                     \<lparr>cells = [''1,0'', ''1,1''], mines = 1\<rparr>]) = 2 \<and>
   card {S \<in> satisfying [\<lparr>cells = [''1,0'', ''1,1''], mines = 1\<rparr>,
                         \<lparr>cells = [''1,0'', ''1,1''], mines = 1\<rparr>]. ''1,0'' \<in> S} = 1 \<and>
   (\<exists>result. calculateProbabilities board3x2 1 = Some result \<and>
      map_of result ''1,0'' = Some (1 / 2))"
proof -
  let ?grp = "[\<lparr>cells = [''1,0'', ''1,1''], mines = 1\<rparr>, \<lparr>cells = [''1,0'', ''1,1''], mines = 1\<rparr>]"
  have wf: "wf_board board3x2"
    by code_simp
  have part: "partitionConstraints (activeConstraints board3x2) = Some [?grp]"
    by code_simp
  have cells: "componentCells ?grp = {''1,0'', ''1,1''}"
    by (auto simp: componentCells_def)
  then have n: "card (componentCells ?grp) = 2"
    by simp
  have total: "card (satisfying ?grp) = 2"
    unfolding card_satisfying by code_simp
  have withKey: "card {S \<in> satisfying ?grp. ''1,0'' \<in> S} = 1"
    unfolding card_satisfying by code_simp
  have "\<exists>result. calculateProbabilities board3x2 1 = Some result \<and>
      map_of result ''1,0'' =
        Some (rat_of_nat (card {S \<in> satisfying ?grp. ''1,0'' \<in> S}) /
              rat_of_nat (card (satisfying ?grp)))"
    by (rule exact_component_probability [OF wf part])
       (simp_all add: n total, simp add: cells)
  with wf part n total withKey show ?thesis
    by simp
qed

text \<open>
  Claim C9. On a board as the class builds it, if a component has at most 20 cells and no
  set of its cells satisfies it, then calculateProbabilities returns (no error is raised)
  and maps every cell of the component to exactly 1/2.
\<close>

theorem unsatisfiable_component_half:
  assumes "wf_board b"
    and "partitionConstraints (activeConstraints b) = Some groups" and "grp \<in> set groups"
    and "card (componentCells grp) \<le> 20" and "satisfying grp = {}"
  shows "\<exists>result. calculateProbabilities b minesRemaining = Some result \<and>
    (\<forall>key \<in> componentCells grp. map_of result key = Some (1 / 2))"
proof -
  note d = active_distinct [OF assms(1-3)]
  have len: "length (groupCellArray grp) \<le> 20"
    using distinct_card [OF groupCellArray_distinct, of grp] assms(4)
    by (simp add: groupCellArray_componentCells)
  have "card (satisfying grp) \<le> 10000"
    using assms(5) by simp
  from solveConstraints_exact(1) [OF groupCellArray_distinct len
      groupCellArray_componentCells d this] assms(5)
  have none: "length (solveConstraints (groupCellArray grp) grp) = 0"
    by simp
  from calculateProbabilities_returns [of b minesRemaining] obtain result where
    r: "calculateProbabilities b minesRemaining = Some result"
    by blast
  have "map_of result key = Some (1 / 2)" if "key \<in> componentCells grp" for key
    using component_result [OF assms(2,3) that assms(4), of minesRemaining] r none
    by (simp add: Let_def)
  with r show ?thesis by blast
qed

theorem unsatisfiable_component_half_witness:
  "wf_board board2x2 \<and>
   partitionConstraints (activeConstraints board2x2) = Some [[\<lparr>cells = [''1,0'', ''1,1''], mines = 3\<rparr>]] \<and>
   componentCells [\<lparr>cells = [''1,0'', ''1,1''], mines = 3\<rparr>] = {''1,0'', ''1,1''} \<and>
   satisfying [\<lparr>cells = [''1,0'', ''1,1''], mines = 3\<rparr>] = {} \<and>
   (\<exists>result. calculateProbabilities board2x2 2 = Some result \<and>
      map_of result ''1,0'' = Some (1 / 2) \<and> map_of result ''1,1'' = Some (1 / 2))"
proof -
  let ?grp = "[\<lparr>cells = [''1,0'', ''1,1''], mines = 3\<rparr>]"
  have wf: "wf_board board2x2"
    by code_simp
  have part: "partitionConstraints (activeConstraints board2x2) = Some [?grp]"
    by code_simp
  have cells: "componentCells ?grp = {''1,0'', ''1,1''}"
    by (auto simp: componentCells_def)
  have "card (satisfying ?grp) = 0"
    unfolding card_satisfying by code_simp
  moreover have "finite (satisfying ?grp)"
    by (rule finite_subset [where B = "Pow (componentCells ?grp)"])
       (auto simp: satisfying_def cells)
  ultimately have none: "satisfying ?grp = {}"
    by simp
  have "\<exists>result. calculateProbabilities board2x2 2 = Some result \<and>
      (\<forall>key \<in> componentCells ?grp. map_of result key = Some (1 / 2))"
    by (rule unsatisfiable_component_half [OF wf part _ _ none]) (simp_all add: cells)
  with wf part cells none show ?thesis
    by simp
qed


section \<open>Constraints that are decided when the loop ends\<close>












section \<open>The probability of the cells of a decided constraint\<close>













lemma chainKey_image [simp]: "chainKey i \<in> chainKey ` S \<longleftrightarrow> i \<in> S"
  by auto











section \<open>A decided constraint when the loop stops at its limit\<close>









end
